theory Spec2Isabelle
  imports Complex_Main
begin

section \<open>Values shared by the two components\<close>

text \<open>
  The exceptions the code throws at setup time. The first three stand for what the
  \<^verbatim>\<open>given(...)\<close> chains of the package n-defensive throw (\<^verbatim>\<open>ensureHasValue\<close>, the
  type checks, \<^verbatim>\<open>ensure\<close>); the others are thrown by the repository's own code.
  The string is the argument name the check was given. Only the fact that a check
  throws matters below, not the class of the exception.
\<close>

datatype config_error =
    ArgumentNullException string
  | ArgumentException string
  | InvalidArgumentException string
  | ApplicationException string
  | ObjectDisposedException

text \<open>
  What the \<^verbatim>\<open>given\<close> checks can tell apart in a JavaScript value: no value
  (\<^verbatim>\<open>null\<close> or \<^verbatim>\<open>undefined\<close>), a string, an object, anything else.
\<close>

datatype js_value = JNoValue | JString string | JObject | JOther

subsection \<open>Duration (src/duration.ts)\<close>

text \<open>
  A JavaScript number is modelled as a rational; \<^verbatim>\<open>NaN\<close> fails every comparison
  of the source and is rejected by the same branch as a negative number.
  The private constructor of \<^verbatim>\<open>Duration\<close> is the only way to build one.
\<close>

datatype duration = Duration rat

fun toMilliSeconds :: "duration \<Rightarrow> rat" where
  "toMilliSeconds (Duration ms) = ms"

definition fromMilliSeconds :: "rat \<Rightarrow> config_error + duration" where
  "fromMilliSeconds milliSeconds =
     (if milliSeconds \<ge> 0 then Inr (Duration milliSeconds)
      else Inl (InvalidArgumentException ''ms''))"

definition fromSeconds :: "rat \<Rightarrow> config_error + duration" where
  "fromSeconds seconds = fromMilliSeconds (seconds * 1000)"


section \<open>The debounce decorator\<close>

subsection \<open>Setup: applying the decorator\<close>

text \<open>
  What \<^verbatim>\<open>createReplacementMethod\<close> closes over: the method name (it names the two
  symbol keys on the owner) and the optional delay.
\<close>

record guard_cfg =
  methodName :: string
  delay :: "duration option"

text \<open>
  Modelled from the spec: the type \<^verbatim>\<open>MethodDecoratorContext\<close> (its declaration, in
  \<^verbatim>\<open>decorator-helpers.ts\<close>, is not among the sources). The spec speaks of a
  method-shaped target; the code reads two fields of the context, \<^verbatim>\<open>name\<close> and
  \<^verbatim>\<open>kind\<close>, and the record has these two.
\<close>

record decorator_context =
  ctx_name :: string
  ctx_kind :: js_value

text \<open>
  \<^verbatim>\<open>createReplacementMethod(target, context, delay)\<close>: the chain
  \<^verbatim>\<open>given(kind, "kind").ensureHasValue().ensureIsString().ensure(t => t === "method")\<close>,
  then the replacement closure.
\<close>

definition createReplacementMethod ::
  "decorator_context \<Rightarrow> duration option \<Rightarrow> config_error + guard_cfg" where
  "createReplacementMethod context d =
     (case ctx_kind context of
        JNoValue \<Rightarrow> Inl (ArgumentNullException ''kind'')
      | JString k \<Rightarrow>
          if k = ''method'' then Inr \<lparr>methodName = ctx_name context, delay = d\<rparr>
          else Inl (InvalidArgumentException ''kind'')
      | _ \<Rightarrow> Inl (ArgumentException ''kind''))"

text \<open>
  The first argument of \<^verbatim>\<open>debounce\<close> is a \<^verbatim>\<open>Duration\<close> or the target method;
  the result is the decorator (closing over the delay) or the replacement method.
\<close>

datatype delay_or_target = IsDuration duration | IsTarget

datatype debounce_result = Decorator duration | Replacement guard_cfg

definition debounce ::
  "delay_or_target \<Rightarrow> decorator_context option \<Rightarrow> config_error + debounce_result" where
  "debounce delayOrTarget context =
     (case delayOrTarget of
        IsDuration d \<Rightarrow>
          if toMilliSeconds d > 0 then Inr (Decorator d)
          else Inl (InvalidArgumentException ''delay'')
      | IsTarget \<Rightarrow>
          (case context of
             None \<Rightarrow> Inl (ApplicationException ''Context should not be null or undefined'')
           | Some c \<Rightarrow> map_sum id Replacement (createReplacementMethod c None)))"

text \<open>Applying the decorator that \<^verbatim>\<open>debounce(delay)\<close> returned.\<close>

definition apply_decorator ::
  "debounce_result \<Rightarrow> decorator_context \<Rightarrow> config_error + guard_cfg" where
  "apply_decorator r context =
     (case r of
        Decorator d \<Rightarrow> createReplacementMethod context (Some d)
      | Replacement g \<Rightarrow> Inr g)"

text \<open>
  The whole setup of \<^verbatim>\<open>@debounce(Duration.fromMilliSeconds(ms))\<close> on a class member:
  build the duration, call the factory, apply the decorator.
\<close>

definition setup_with_delay :: "rat \<Rightarrow> decorator_context \<Rightarrow> config_error + guard_cfg" where
  "setup_with_delay ms context =
     (case fromMilliSeconds ms of
        Inl e \<Rightarrow> Inl e
      | Inr d \<Rightarrow>
          (case debounce (IsDuration d) None of
             Inl e \<Rightarrow> Inl e
           | Inr r \<Rightarrow> apply_decorator r context))"

text \<open>The setup of a bare \<^verbatim>\<open>@debounce\<close>.\<close>

definition setup_without_delay :: "decorator_context \<Rightarrow> config_error + guard_cfg" where
  "setup_without_delay context =
     (case debounce IsTarget (Some context) of
        Inl e \<Rightarrow> Inl e
      | Inr r \<Rightarrow> apply_decorator r context)"

subsection \<open>Setup of the property-descriptor variant\<close>

text \<open>
  The second \<^verbatim>\<open>debounce\<close> of the repository takes
  \<^verbatim>\<open>(delayOrTarget, propertyKey, descriptor)\<close>. Its first argument is a
  \<^verbatim>\<open>Duration\<close> or some other value.
\<close>

datatype legacy_arg = LDuration duration | LValue js_value

datatype legacy_result = LDecorator rat | LReplaced guard_cfg

definition ensure_object :: "string \<Rightarrow> js_value \<Rightarrow> config_error option" where
  "ensure_object n v =
     (case v of JNoValue \<Rightarrow> Some (ArgumentNullException n)
      | JObject \<Rightarrow> None
      | _ \<Rightarrow> Some (ArgumentException n))"

definition ensure_string :: "string \<Rightarrow> js_value \<Rightarrow> config_error option" where
  "ensure_string n v =
     (case v of JNoValue \<Rightarrow> Some (ArgumentNullException n)
      | JString _ \<Rightarrow> None
      | _ \<Rightarrow> Some (ArgumentException n))"

fun key_of :: "js_value \<Rightarrow> string" where
  "key_of (JString s) = s"
| "key_of _ = []"

definition legacy_install ::
  "js_value \<Rightarrow> js_value \<Rightarrow> duration option \<Rightarrow> config_error + guard_cfg" where
  "legacy_install propertyKey descriptor d =
     (case ensure_string ''propertyKey'' propertyKey of
        Some e \<Rightarrow> Inl e
      | None \<Rightarrow>
          (case ensure_object ''descriptor'' descriptor of
             Some e \<Rightarrow> Inl e
           | None \<Rightarrow> Inr \<lparr>methodName = key_of propertyKey, delay = d\<rparr>))"

definition debounce_legacy ::
  "legacy_arg \<Rightarrow> js_value \<Rightarrow> js_value \<Rightarrow> config_error + legacy_result" where
  "debounce_legacy delayOrTarget propertyKey descriptor =
     (case delayOrTarget of
        LDuration d \<Rightarrow> Inr (LDecorator (toMilliSeconds d))
      | LValue v \<Rightarrow>
          (case ensure_object ''delayOrTarget'' v of
             Some e \<Rightarrow> Inl e
           | None \<Rightarrow> map_sum id LReplaced (legacy_install propertyKey descriptor None)))"

text \<open>The function \<^verbatim>\<open>debounce(delay)\<close> returned, applied to a class member.\<close>

definition legacy_decorator ::
  "rat \<Rightarrow> js_value \<Rightarrow> js_value \<Rightarrow> js_value \<Rightarrow> config_error + guard_cfg" where
  "legacy_decorator delayMs target propertyKey descriptor =
     (case ensure_object ''target'' target of
        Some e \<Rightarrow> Inl e
      | None \<Rightarrow> legacy_install propertyKey descriptor (Some (Duration delayMs)))"

definition legacy_setup_with_delay ::
  "rat \<Rightarrow> js_value \<Rightarrow> js_value \<Rightarrow> js_value \<Rightarrow> config_error + guard_cfg" where
  "legacy_setup_with_delay ms target propertyKey descriptor =
     (case fromMilliSeconds ms of
        Inl e \<Rightarrow> Inl e
      | Inr d \<Rightarrow>
          (case debounce_legacy (LDuration d) JNoValue JNoValue of
             Inr (LDecorator delayMs) \<Rightarrow> legacy_decorator delayMs target propertyKey descriptor
           | Inr (LReplaced g) \<Rightarrow> Inr g
           | Inl e \<Rightarrow> Inl e))"

subsection \<open>The replacement method\<close>

text \<open>
  The replacement method is an \<^verbatim>\<open>async\<close> function on a single-threaded event loop:
  it runs without interruption from one \<^verbatim>\<open>await\<close> to the next. The model has one
  transition for each such stretch. The state is what the code keeps on the owner
  (\<^verbatim>\<open>this[activeKey]\<close>, \<^verbatim>\<open>this[scheduledCallKey]\<close>) together with the invocations
  of the replacement method that are suspended at an \<^verbatim>\<open>await\<close>, the promises the
  invocations returned, and the log of the executions of the wrapped method.
  A scheduled call is the closure \<^verbatim>\<open>() => target.call(this, ...args)\<close>; it is
  modelled by its arguments.
\<close>

datatype 'e js_error = Thrown 'e | TypeError

datatype 'e outcome = Resolved | Rejected "'e js_error"

datatype 'a await_point = AwaitDelay | AwaitCall 'a

record ('a, 'e) owner =
  activeKey :: bool
  scheduledCallKey :: "'a option"
  invocations :: nat
  suspended :: "(nat \<times> 'a await_point) list"
  promises :: "(nat \<times> 'e outcome) list"
  executions :: "'a list"

definition fresh_owner :: "('a, 'e) owner" where
  "fresh_owner =
     \<lparr>activeKey = False, scheduledCallKey = None, invocations = 0,
      suspended = [], promises = [], executions = []\<rparr>"

definition settle_promise :: "nat \<Rightarrow> 'e outcome \<Rightarrow> ('a, 'e) owner \<Rightarrow> ('a, 'e) owner" where
  "settle_promise i r g = g\<lparr>promises := promises g @ [(i, r)]\<rparr>"

definition suspend :: "nat \<Rightarrow> 'a await_point \<Rightarrow> ('a, 'e) owner \<Rightarrow> ('a, 'e) owner" where
  "suspend i p g = g\<lparr>suspended := suspended g @ [(i, p)]\<rparr>"

definition resume :: "nat \<Rightarrow> ('a, 'e) owner \<Rightarrow> ('a, 'e) owner" where
  "resume i g = g\<lparr>suspended := filter (\<lambda>x. fst x \<noteq> i) (suspended g)\<rparr>"

text \<open>
  Lines 103 to 107: take the scheduled call, clear the slot, call it and await it.
  Calling \<^verbatim>\<open>null\<close> throws a \<^verbatim>\<open>TypeError\<close> inside the \<^verbatim>\<open>try\<close>: the \<^verbatim>\<open>finally\<close>
  clears the flag and the invocation rejects.
\<close>

definition invoke_scheduled :: "nat \<Rightarrow> ('a, 'e) owner \<Rightarrow> ('a, 'e) owner" where
  "invoke_scheduled i g =
     (case scheduledCallKey g of
        None \<Rightarrow> settle_promise i (Rejected TypeError) (g\<lparr>activeKey := False\<rparr>)
      | Some a \<Rightarrow>
          suspend i (AwaitCall a)
            (g\<lparr>scheduledCallKey := None, executions := executions g @ [a]\<rparr>))"

text \<open>
  The head of the \<^verbatim>\<open>while\<close> loop and its body up to the first \<^verbatim>\<open>await\<close>; when the
  condition fails the function returns and its promise resolves.
\<close>

definition run_loop :: "guard_cfg \<Rightarrow> nat \<Rightarrow> ('a, 'e) owner \<Rightarrow> ('a, 'e) owner" where
  "run_loop c i g =
     (if scheduledCallKey g \<noteq> None \<and> \<not> activeKey g then
        (let g1 = g\<lparr>activeKey := True\<rparr>
         in if delay c \<noteq> None then suspend i AwaitDelay g1 else invoke_scheduled i g1)
      else settle_promise i Resolved g)"

text \<open>A call of the replacement method with arguments \<open>a\<close>, up to its first \<^verbatim>\<open>await\<close>.\<close>

definition replacement_method :: "guard_cfg \<Rightarrow> 'a \<Rightarrow> ('a, 'e) owner \<Rightarrow> ('a, 'e) owner" where
  "replacement_method c a g =
     (let i = invocations g;
          g1 = g\<lparr>invocations := Suc i, scheduledCallKey := Some a\<rparr>
      in if activeKey g1 then settle_promise i Resolved g1 else run_loop c i g1)"

text \<open>
  The continuation after \<^verbatim>\<open>await currentCall()\<close>: the \<^verbatim>\<open>finally\<close> block, then either
  the loop head again or, when the call failed, the exception leaves the function.
\<close>

definition after_call ::
  "guard_cfg \<Rightarrow> nat \<Rightarrow> 'e option \<Rightarrow> ('a, 'e) owner \<Rightarrow> ('a, 'e) owner" where
  "after_call c i r g =
     (let g1 = g\<lparr>activeKey := False\<rparr>
      in case r of
           None \<Rightarrow> run_loop c i g1
         | Some e \<Rightarrow> settle_promise i (Rejected (Thrown e)) g1)"

text \<open>
  Modelled from the spec: \<^verbatim>\<open>Delay.milliseconds\<close> and \<^verbatim>\<open>Delay.seconds\<close> (the file
  \<^verbatim>\<open>delay.ts\<close> is not among the sources). The spec calls them the settle delay and
  the fixed polling interval, both suspension points: the call returns a promise that
  fulfils when the time has passed, so an \<^verbatim>\<open>await\<close> of it suspends the caller until
  an event of the environment (\<open>DelayElapsed\<close> here, \<open>Poll\<close> for the processor) resumes it.

  The events of the environment: a call of the guarded method, the delay elapsing for
  a suspended invocation, and the wrapped method's promise settling (\<open>None\<close> for
  success, \<open>Some e\<close> for a failure \<open>e\<close>). An event that is not enabled in a state has
  no successor.
\<close>

datatype ('a, 'e) guard_event = Call 'a | DelayElapsed nat | CallSettled nat "'e option"

fun guard_step ::
  "guard_cfg \<Rightarrow> ('a, 'e) owner \<Rightarrow> ('a, 'e) guard_event \<Rightarrow> ('a, 'e) owner option" where
  "guard_step c g (Call a) = Some (replacement_method c a g)"
| "guard_step c g (DelayElapsed i) =
     (case map_of (suspended g) i of
        Some AwaitDelay \<Rightarrow> Some (invoke_scheduled i (resume i g))
      | _ \<Rightarrow> None)"
| "guard_step c g (CallSettled i r) =
     (case map_of (suspended g) i of
        Some (AwaitCall a) \<Rightarrow> Some (after_call c i r (resume i g))
      | _ \<Rightarrow> None)"

fun guard_run ::
  "guard_cfg \<Rightarrow> ('a, 'e) owner \<Rightarrow> ('a, 'e) guard_event list \<Rightarrow> ('a, 'e) owner option" where
  "guard_run c g [] = Some g"
| "guard_run c g (ev # evs) =
     (case guard_step c g ev of None \<Rightarrow> None | Some g' \<Rightarrow> guard_run c g' evs)"

text \<open>The executions of the wrapped method that are in flight.\<close>

definition in_flight :: "('a, 'e) owner \<Rightarrow> 'a list" where
  "in_flight g = concat (map (\<lambda>x. case snd x of AwaitCall a \<Rightarrow> [a] | AwaitDelay \<Rightarrow> []) (suspended g))"


text \<open>
  What holds of every state the events can reach from a fresh owner: the flag is set
  exactly while an invocation is suspended in the loop, there is at most one such
  invocation, and a promise is settled only for an invocation that has returned.
\<close>

definition guard_inv :: "('a, 'e) owner \<Rightarrow> bool" where
  "guard_inv g \<longleftrightarrow>
     (activeKey g \<longleftrightarrow> suspended g \<noteq> []) \<and>
     length (suspended g) \<le> 1 \<and>
     (\<forall>i p. (i, p) \<in> set (suspended g) \<longrightarrow> i < invocations g) \<and>
     (\<forall>i r. (i, r) \<in> set (promises g) \<longrightarrow>
        i < invocations g \<and> (\<forall>p. (i, p) \<notin> set (suspended g))) \<and>
     distinct (map fst (promises g))"

text \<open>
  The events that end the execution in flight without failure and bring the loop to
  its next execution: the promise fulfils and, when a delay is configured, the delay
  of the next iteration elapses.
\<close>

definition rerun_events :: "guard_cfg \<Rightarrow> nat \<Rightarrow> ('a, 'e) guard_event list" where
  "rerun_events c i = CallSettled i None # (if delay c = None then [] else [DelayElapsed i])"


section \<open>The background processor\<close>

subsection \<open>Actions\<close>

text \<open>
  What a closure of the caller does when it is called: it throws, or it returns a
  promise that later fulfils or rejects. When the promise settles is decided by the
  environment (the event \<open>Settle\<close> below), so an action may take any time.
  An \<^verbatim>\<open>Action\<close> object has an identity (\<open>aid\<close>, given by \<^verbatim>\<open>new\<close>), its action
  and its error handler.
\<close>

datatype 'e behaviour = Throws 'e | Resolves | Rejects 'e

record 'e Action =
  aid :: nat
  action :: "'e behaviour"
  errorHandler :: "'e \<Rightarrow> 'e behaviour"

text \<open>
  The two closures that \<^verbatim>\<open>execute\<close> receives as \<^verbatim>\<open>postExecuteCallback\<close>: the one of
  the timer callback (remove, then schedule the next round) and the one of
  \<^verbatim>\<open>dispose\<close> (remove only).
\<close>

datatype callback = FromTimer | FromDispose

text \<open>
  A pending promise that \<^verbatim>\<open>execute\<close> has attached its reactions to: the action's or
  the error handler's, with what it will settle to (\<open>None\<close> fulfils, \<open>Some e\<close> rejects).
\<close>

datatype 'e awaited = ActionPromise "'e option" | HandlerPromise "'e option"

datatype disposal = NotDisposing | Polling | Done

subsection \<open>State\<close>

text \<open>
  The first seven fields are the fields of the class (\<open>timeout_handle\<close> is
  \<^verbatim>\<open>_timeout\<close>). The others are the environment and the observations: the timers
  that \<^verbatim>\<open>setTimeout\<close> has armed and that have neither fired nor been cleared, the
  allocators of timer handles and object identities, the promise reactions
  registered by \<^verbatim>\<open>execute\<close>, how far the one effective call of \<^verbatim>\<open>dispose\<close> has got,
  and the logs of the actions started, the actions whose \<^verbatim>\<open>postExecuteCallback\<close> ran,
  the errors passed to error handlers, and the errors written with
  \<^verbatim>\<open>console.error\<close>.
\<close>

record 'e processor =
  defaultErrorHandler :: "'e \<Rightarrow> 'e behaviour"
  breakIntervalMilliseconds :: rat
  breakOnlyWhenNoWork :: bool
  actionsToProcess :: "'e Action list"
  actionsExecuting :: "'e Action list"
  isDisposed :: bool
  timeout_handle :: "nat option"
  timers :: "(nat \<times> rat) list"
  nextHandle :: nat
  nextId :: nat
  reactions :: "('e Action \<times> callback \<times> 'e awaited) list"
  disposal :: disposal
  started :: "'e Action list"
  completed :: "nat list"
  handled :: "(nat \<times> 'e) list"
  diagnostics :: "'e list"

definition queueLength :: "'e processor \<Rightarrow> nat" where
  "queueLength s = length (actionsToProcess s)"

text \<open>\<^verbatim>\<open>this._timeout = setTimeout(callback, d)\<close> and \<^verbatim>\<open>clearTimeout(h)\<close>.\<close>

definition setTimeout :: "rat \<Rightarrow> 'e processor \<Rightarrow> 'e processor" where
  "setTimeout d s =
     s\<lparr>timeout_handle := Some (nextHandle s),
       timers := timers s @ [(nextHandle s, d)],
       nextHandle := Suc (nextHandle s)\<rparr>"

definition clearTimeout :: "nat \<Rightarrow> 'e processor \<Rightarrow> 'e processor" where
  "clearTimeout h s = s\<lparr>timers := filter (\<lambda>t. fst t \<noteq> h) (timers s)\<rparr>"

text \<open>
  \<^verbatim>\<open>Array.prototype.remove\<close> of n-ext: the first element identical to the value is
  taken out.
\<close>

fun remove_action :: "nat \<Rightarrow> 'e Action list \<Rightarrow> 'e Action list" where
  "remove_action i [] = []"
| "remove_action i (x # xs) = (if aid x = i then xs else x # remove_action i xs)"

subsection \<open>Operations\<close>

definition initiateBackgroundProcessing :: "'e processor \<Rightarrow> 'e processor" where
  "initiateBackgroundProcessing s =
     (if isDisposed s then s
      else setTimeout
             (if breakOnlyWhenNoWork s \<and> length (actionsToProcess s) > 0 then 0
              else breakIntervalMilliseconds s) s)"

definition new_processor ::
  "('e \<Rightarrow> 'e behaviour) \<Rightarrow> rat \<Rightarrow> bool \<Rightarrow> config_error + 'e processor" where
  "new_processor h ms b =
     (if ms \<ge> 0 then
        Inr (initiateBackgroundProcessing
          \<lparr>defaultErrorHandler = h, breakIntervalMilliseconds = ms, breakOnlyWhenNoWork = b,
           actionsToProcess = [], actionsExecuting = [], isDisposed = False,
           timeout_handle = None, timers = [], nextHandle = 0, nextId = 0, reactions = [],
           disposal = NotDisposing, started = [], completed = [], handled = [],
           diagnostics = []\<rparr>)
      else Inl (InvalidArgumentException ''breakIntervalMilliseconds''))"

definition processAction ::
  "'e processor \<Rightarrow> 'e behaviour \<Rightarrow> ('e \<Rightarrow> 'e behaviour) option \<Rightarrow> config_error + 'e processor" where
  "processAction s act eh =
     (if isDisposed s then Inl ObjectDisposedException
      else Inr (s\<lparr>actionsToProcess := actionsToProcess s @
                     [\<lparr>aid = nextId s, action = act,
                       errorHandler = (case eh of None \<Rightarrow> defaultErrorHandler s | Some f \<Rightarrow> f)\<rparr>],
                   nextId := Suc (nextId s)\<rparr>))"

definition postExecuteCallback :: "callback \<Rightarrow> 'e Action \<Rightarrow> 'e processor \<Rightarrow> 'e processor" where
  "postExecuteCallback cb a s =
     (let s1 = s\<lparr>actionsExecuting := remove_action (aid a) (actionsExecuting s),
                 completed := completed s @ [aid a]\<rparr>
      in case cb of FromTimer \<Rightarrow> initiateBackgroundProcessing s1 | FromDispose \<Rightarrow> s1)"

definition await :: "'e Action \<Rightarrow> callback \<Rightarrow> 'e awaited \<Rightarrow> 'e processor \<Rightarrow> 'e processor" where
  "await a cb p s = s\<lparr>reactions := reactions s @ [(a, cb, p)]\<rparr>"

text \<open>
  The inner \<^verbatim>\<open>try\<close> of \<^verbatim>\<open>execute\<close> (it occurs twice, with the same text): call the
  error handler; when the call throws, \<^verbatim>\<open>console.error\<close> and the callback.
\<close>

definition call_errorHandler ::
  "callback \<Rightarrow> 'e Action \<Rightarrow> 'e \<Rightarrow> 'e processor \<Rightarrow> 'e processor" where
  "call_errorHandler cb a e s =
     (let s1 = s\<lparr>handled := handled s @ [(aid a, e)]\<rparr>
      in case errorHandler a e of
           Throws e2 \<Rightarrow> postExecuteCallback cb a (s1\<lparr>diagnostics := diagnostics s1 @ [e2]\<rparr>)
         | Resolves \<Rightarrow> await a cb (HandlerPromise None) s1
         | Rejects e2 \<Rightarrow> await a cb (HandlerPromise (Some e2)) s1)"

text \<open>\<^verbatim>\<open>Action.execute\<close>, up to its return.\<close>

definition execute :: "callback \<Rightarrow> 'e Action \<Rightarrow> 'e processor \<Rightarrow> 'e processor" where
  "execute cb a s =
     (let s1 = s\<lparr>started := started s @ [a]\<rparr>
      in case action a of
           Throws e \<Rightarrow> call_errorHandler cb a e s1
         | Resolves \<Rightarrow> await a cb (ActionPromise None) s1
         | Rejects e \<Rightarrow> await a cb (ActionPromise (Some e)) s1)"

text \<open>The reactions of \<^verbatim>\<open>execute\<close>, run when the awaited promise settles.\<close>

definition settled :: "'e Action \<Rightarrow> callback \<Rightarrow> 'e awaited \<Rightarrow> 'e processor \<Rightarrow> 'e processor" where
  "settled a cb p s =
     (case p of
        ActionPromise None \<Rightarrow> postExecuteCallback cb a s
      | ActionPromise (Some e) \<Rightarrow> call_errorHandler cb a e s
      | HandlerPromise None \<Rightarrow> postExecuteCallback cb a s
      | HandlerPromise (Some e2) \<Rightarrow>
          postExecuteCallback cb a (s\<lparr>diagnostics := diagnostics s @ [e2]\<rparr>))"

text \<open>The callback given to \<^verbatim>\<open>setTimeout\<close> in \<^verbatim>\<open>_initiateBackgroundProcessing\<close>.\<close>

definition timer_callback :: "'e processor \<Rightarrow> 'e processor" where
  "timer_callback s =
     (case actionsToProcess s of
        a # rest \<Rightarrow>
          execute FromTimer a
            (s\<lparr>actionsToProcess := rest, actionsExecuting := actionsExecuting s @ [a]\<rparr>)
      | [] \<Rightarrow> initiateBackgroundProcessing s)"

text \<open>The first \<^verbatim>\<open>while\<close> loop of \<^verbatim>\<open>dispose\<close>.\<close>

function drain :: "'e processor \<Rightarrow> 'e processor" where
  "drain s =
     (case actionsToProcess s of
        [] \<Rightarrow> s
      | a # rest \<Rightarrow>
          drain (execute FromDispose a
                   (s\<lparr>actionsToProcess := rest, actionsExecuting := actionsExecuting s @ [a]\<rparr>)))"
  by pat_completeness auto
termination
  by (relation "measure (\<lambda>s. length (actionsToProcess s))")
     (auto simp add: execute_def call_errorHandler_def postExecuteCallback_def await_def Let_def
        split: behaviour.splits)

text \<open>
  The second loop of \<^verbatim>\<open>dispose\<close>, one test of its condition: the promise of
  \<^verbatim>\<open>dispose\<close> resolves when nothing is executing, otherwise the call waits for
  \<^verbatim>\<open>Delay.seconds(3)\<close>.
\<close>

definition poll :: "'e processor \<Rightarrow> 'e processor" where
  "poll s = s\<lparr>disposal := (if length (actionsExecuting s) > 0 then Polling else Done)\<rparr>"

definition dispose :: "bool \<Rightarrow> 'e processor \<Rightarrow> 'e processor" where
  "dispose killQueue s =
     (if isDisposed s then s
      else
        let s1 = s\<lparr>isDisposed := True\<rparr>;
            s2 = (case timeout_handle s1 of Some h \<Rightarrow> clearTimeout h s1 | None \<Rightarrow> s1);
            s3 = (if \<not> killQueue then drain s2 else s2)
        in poll s3)"

subsection \<open>Events\<close>

text \<open>
  A call of \<^verbatim>\<open>processAction\<close> (an exception goes to the caller and leaves the
  processor as it was), a timer firing (it is then no longer outstanding, and its
  callback runs), the promise awaited for an action settling, a call of
  \<^verbatim>\<open>dispose\<close>, and the delay of the disposal loop elapsing.
\<close>

datatype 'e bp_event =
    Enqueue "'e behaviour" "('e \<Rightarrow> 'e behaviour) option"
  | Tick nat
  | Settle nat
  | Dispose bool
  | Poll

fun take_reaction ::
  "nat \<Rightarrow> ('e Action \<times> callback \<times> 'e awaited) list \<Rightarrow>
   (('e Action \<times> callback \<times> 'e awaited) \<times> ('e Action \<times> callback \<times> 'e awaited) list) option" where
  "take_reaction i [] = None"
| "take_reaction i (r # rs) =
     (if aid (fst r) = i then Some (r, rs)
      else (case take_reaction i rs of None \<Rightarrow> None | Some (x, rest) \<Rightarrow> Some (x, r # rest)))"

fun bp_step :: "'e processor \<Rightarrow> 'e bp_event \<Rightarrow> 'e processor option" where
  "bp_step s (Enqueue act eh) =
     (case processAction s act eh of Inl e \<Rightarrow> Some s | Inr s' \<Rightarrow> Some s')"
| "bp_step s (Tick h) =
     (if h \<in> fst ` set (timers s) then Some (timer_callback (clearTimeout h s)) else None)"
| "bp_step s (Settle i) =
     (case take_reaction i (reactions s) of
        None \<Rightarrow> None
      | Some ((a, cb, p), rest) \<Rightarrow> Some (settled a cb p (s\<lparr>reactions := rest\<rparr>)))"
| "bp_step s (Dispose killQueue) = Some (dispose killQueue s)"
| "bp_step s Poll = (if disposal s = Polling then Some (poll s) else None)"

fun bp_run :: "'e processor \<Rightarrow> 'e bp_event list \<Rightarrow> 'e processor option" where
  "bp_run s [] = Some s"
| "bp_run s (ev # evs) = (case bp_step s ev of None \<Rightarrow> None | Some s' \<Rightarrow> bp_run s' evs)"

subsection \<open>Invariants of the processor\<close>

text \<open>
  What holds of every state the events can reach from a new processor. At most one
  timer is outstanding, its handle is \<^verbatim>\<open>_timeout\<close>, and none is outstanding while an
  action started by the timer callback is executing or after disposal; before
  disposal there is always one or the other. The disposal has begun exactly when
  \<^verbatim>\<open>_isDisposed\<close> is set and has resolved only with nothing executing. Every
  started action is executing or has had its callback run. Object identities are
  unique, every registered reaction belongs to an executing action and every
  executing action has one. Two predicates describe the state \<open>s'\<close> that
  \<^verbatim>\<open>execute\<close> or one of its reactions leaves from \<open>s\<close>: the callback has run, or a
  reaction waits. The last definitions name what the theorems speak of: the records
  that a list of calls of \<^verbatim>\<open>processAction\<close> creates, the error an action ends with,
  the error its handler ends with, and the number of promises awaited for it.
\<close>

definition timer_reactions :: "'e processor \<Rightarrow> nat" where
  "timer_reactions s = length (filter (\<lambda>r. fst (snd r) = FromTimer) (reactions s))"

definition timers_ok :: "'e processor \<Rightarrow> bool" where
  "timers_ok s \<longleftrightarrow>
     timer_reactions s + length (timers s) \<le> 1 \<and>
     (\<forall>t \<in> set (timers s). timeout_handle s = Some (fst t)) \<and>
     (isDisposed s \<longrightarrow> timers s = [])"

definition disposal_ok :: "'e processor \<Rightarrow> bool" where
  "disposal_ok s \<longleftrightarrow>
     (disposal s \<noteq> NotDisposing \<longleftrightarrow> isDisposed s) \<and>
     (disposal s = Done \<longrightarrow> actionsExecuting s = [])"

definition started_ok :: "'e processor \<Rightarrow> bool" where
  "started_ok s \<longleftrightarrow>
     aid ` set (started s) \<subseteq> set (completed s) \<union> aid ` set (actionsExecuting s) \<and>
     aid ` set (actionsExecuting s) \<subseteq> aid ` set (started s)"

definition callback_ran :: "callback \<Rightarrow> 'e Action \<Rightarrow> 'e processor \<Rightarrow> 'e processor \<Rightarrow> bool" where
  "callback_ran cb a s s' \<longleftrightarrow>
     reactions s' = reactions s \<and>
     completed s' = completed s @ [aid a] \<and>
     actionsExecuting s' = remove_action (aid a) (actionsExecuting s) \<and>
     (if cb = FromTimer \<and> \<not> isDisposed s
      then (\<exists>d. timers s' = timers s @ [(nextHandle s, d)]) \<and>
           timeout_handle s' = Some (nextHandle s)
      else timers s' = timers s \<and> timeout_handle s' = timeout_handle s)"

definition now_awaiting :: "callback \<Rightarrow> 'e Action \<Rightarrow> 'e processor \<Rightarrow> 'e processor \<Rightarrow> bool" where
  "now_awaiting cb a s s' \<longleftrightarrow>
     (\<exists>p. reactions s' = reactions s @ [(a, cb, p)]) \<and>
     completed s' = completed s \<and>
     actionsExecuting s' = actionsExecuting s \<and>
     timers s' = timers s \<and> timeout_handle s' = timeout_handle s"

definition ids_ok :: "'e processor \<Rightarrow> bool" where
  "ids_ok s \<longleftrightarrow>
     distinct (map aid (started s @ actionsToProcess s)) \<and>
     (\<forall>a \<in> set (started s @ actionsToProcess s). aid a < nextId s) \<and>
     distinct (map (\<lambda>r. aid (fst r)) (reactions s)) \<and>
     (\<forall>r \<in> set (reactions s). aid (fst r) \<in> aid ` set (actionsExecuting s))"

definition scheduler_alive :: "'e processor \<Rightarrow> bool" where
  "scheduler_alive s \<longleftrightarrow> (\<not> isDisposed s \<longrightarrow> timer_reactions s + length (timers s) = 1)"

definition executing_ok :: "'e processor \<Rightarrow> bool" where
  "executing_ok s \<longleftrightarrow>
     distinct (map aid (actionsExecuting s)) \<and>
     (\<forall>x \<in> set (actionsExecuting s). \<exists>r \<in> set (reactions s). aid (fst r) = aid x)"

definition bp_inv :: "'e processor \<Rightarrow> bool" where
  "bp_inv s \<longleftrightarrow>
     timers_ok s \<and> scheduler_alive s \<and> disposal_ok s \<and> started_ok s \<and> ids_ok s \<and>
     executing_ok s"

definition new_actions ::
  "('e \<Rightarrow> 'e behaviour) \<Rightarrow> nat \<Rightarrow> ('e behaviour \<times> ('e \<Rightarrow> 'e behaviour) option) list \<Rightarrow> 'e Action list" where
  "new_actions h n xs =
     map (\<lambda>(i, act, eh). \<lparr>aid = i, action = act,
                          errorHandler = (case eh of None \<Rightarrow> h | Some f \<Rightarrow> f)\<rparr>)
       (enumerate n xs)"

definition action_error :: "'e Action \<Rightarrow> 'e option" where
  "action_error a = (case action a of Throws e \<Rightarrow> Some e | Rejects e \<Rightarrow> Some e | Resolves \<Rightarrow> None)"

definition handler_error :: "'e Action \<Rightarrow> 'e option" where
  "handler_error a =
     (case action_error a of
        None \<Rightarrow> None
      | Some e \<Rightarrow>
          (case errorHandler a e of Throws e2 \<Rightarrow> Some e2 | Rejects e2 \<Rightarrow> Some e2 | Resolves \<Rightarrow> None))"

definition promises_awaited :: "'e Action \<Rightarrow> nat" where
  "promises_awaited a =
     (case action a of Throws e \<Rightarrow> 0 | _ \<Rightarrow> Suc 0) +
     (case action_error a of
        None \<Rightarrow> 0
      | Some e \<Rightarrow> (case errorHandler a e of Throws e2 \<Rightarrow> 0 | _ \<Rightarrow> Suc 0))"

section \<open>Concrete configurations\<close>

text \<open>
  The states and actions at which the theorems below are instantiated.
\<close>

definition plain_guard :: guard_cfg where
  "plain_guard = \<lparr>methodName = ''save'', delay = None\<rparr>"

definition delayed_guard :: guard_cfg where
  "delayed_guard = \<lparr>methodName = ''save'', delay = Some (Duration 50)\<rparr>"

definition running_1_pending_2 :: "(nat, nat) owner" where
  "running_1_pending_2 =
     \<lparr>activeKey = True, scheduledCallKey = Some 2, invocations = 2,
      suspended = [(0, AwaitCall 1)], promises = [(1, Resolved)], executions = [1]\<rparr>"

definition running_1 :: "(nat, nat) owner" where
  "running_1 =
     \<lparr>activeKey = True, scheduledCallKey = None, invocations = 1,
      suspended = [(0, AwaitCall 1)], promises = [], executions = [1]\<rparr>"

definition method_context :: decorator_context where
  "method_context = \<lparr>ctx_name = ''save'', ctx_kind = JString ''method''\<rparr>"

definition getter_context :: decorator_context where
  "getter_context = \<lparr>ctx_name = ''save'', ctx_kind = JString ''getter''\<rparr>"

definition waiting_1 :: "(nat, nat) owner" where
  "waiting_1 =
     \<lparr>activeKey = True, scheduledCallKey = Some 1, invocations = 1,
      suspended = [(0, AwaitDelay)], promises = [], executions = []\<rparr>"

definition idle_processor :: "nat processor" where
  "idle_processor =
     \<lparr>defaultErrorHandler = (\<lambda>e. Resolves), breakIntervalMilliseconds = 0,
      breakOnlyWhenNoWork = True, actionsToProcess = [], actionsExecuting = [],
      isDisposed = False, timeout_handle = Some 0, timers = [(0, 0)], nextHandle = 1,
      nextId = 0, reactions = [], disposal = NotDisposing, started = [], completed = [],
      handled = [], diagnostics = []\<rparr>"

definition quiet_action :: "nat Action" where
  "quiet_action = \<lparr>aid = 0, action = Resolves, errorHandler = (\<lambda>e. Resolves)\<rparr>"

definition failing_action :: "nat Action" where
  "failing_action = \<lparr>aid = 0, action = Rejects 5, errorHandler = (\<lambda>e. Rejects (e + 10))\<rparr>"

definition throwing_action :: "nat Action" where
  "throwing_action = \<lparr>aid = 1, action = Throws 5, errorHandler = (\<lambda>e. Resolves)\<rparr>"

definition one_queued :: "nat processor" where
  "one_queued = idle_processor\<lparr>actionsToProcess := [quiet_action], nextId := 1\<rparr>"

definition one_failing :: "nat processor" where
  "one_failing = idle_processor\<lparr>actionsToProcess := [failing_action], nextId := 1\<rparr>"

definition one_rejected :: "nat processor" where
  "one_rejected =
     one_failing\<lparr>actionsToProcess := [], actionsExecuting := [failing_action], timers := [],
       reactions := [(failing_action, FromTimer, ActionPromise (Some 5))],
       started := [failing_action]\<rparr>"


section \<open>Properties of the debounce decorator\<close>

subsection \<open>The invariant and the effect of calls\<close>

lemma guard_inv_fresh: "guard_inv fresh_owner"
  by (simp add: guard_inv_def fresh_owner_def)

lemma suspended_cases:
  assumes "guard_inv g"
  obtains "suspended g = []" "\<not> activeKey g"
  | i p where "suspended g = [(i, p)]" "activeKey g" "i < invocations g" "\<forall>r. (i, r) \<notin> set (promises g)"
proof (cases "suspended g")
  case Nil
  then show ?thesis using assms that(1) by (simp add: guard_inv_def)
next
  case (Cons x xs)
  then have "xs = []" using assms by (simp add: guard_inv_def)
  obtain i p where "x = (i, p)" by (cases x)
  with Cons \<open>xs = []\<close> have "suspended g = [(i, p)]" by simp
  then show ?thesis using assms that(2)[of i p] by (auto simp add: guard_inv_def)
qed

lemma guard_inv_call:
  assumes "guard_inv g"
  shows "guard_inv (replacement_method c a g)"
  using assms
proof (rule suspended_cases)
  assume "suspended g = []" "\<not> activeKey g"
  then show ?thesis using assms
    by (auto simp add: replacement_method_def run_loop_def Let_def invoke_scheduled_def
        suspend_def settle_promise_def split: option.splits)
       (auto simp add: guard_inv_def intro: less_SucI)
next
  fix j p assume "suspended g = [(j, p)]" "activeKey g" "j < invocations g" "\<forall>r. (j, r) \<notin> set (promises g)"
  then show ?thesis using assms
    by (auto simp add: replacement_method_def settle_promise_def Let_def)
       (auto simp add: guard_inv_def intro: less_SucI)
qed

lemma guard_inv_delay:
  assumes "guard_inv g" "guard_step c g (DelayElapsed i) = Some g'"
  shows "guard_inv g'"
  using assms(1)
proof (rule suspended_cases)
  assume "suspended g = []" then show ?thesis using assms(2) by simp
next
  fix j p assume "suspended g = [(j, p)]" "activeKey g" "j < invocations g" "\<forall>r. (j, r) \<notin> set (promises g)"
  then show ?thesis using assms
    by (auto simp add: invoke_scheduled_def resume_def suspend_def settle_promise_def
        split: option.splits if_splits await_point.splits)
       (auto simp add: guard_inv_def)
qed

lemma guard_inv_settled:
  assumes "guard_inv g" "guard_step c g (CallSettled i r) = Some g'"
  shows "guard_inv g'"
  using assms(1)
proof (rule suspended_cases)
  assume "suspended g = []" then show ?thesis using assms(2) by simp
next
  fix j p assume "suspended g = [(j, p)]" "activeKey g" "j < invocations g" "\<forall>r. (j, r) \<notin> set (promises g)"
  then show ?thesis using assms
    by (auto simp add: after_call_def run_loop_def Let_def invoke_scheduled_def resume_def suspend_def settle_promise_def
        split: option.splits if_splits await_point.splits)
       (auto simp add: guard_inv_def)
qed

lemma guard_inv_step:
  "guard_inv g \<Longrightarrow> guard_step c g ev = Some g' \<Longrightarrow> guard_inv g'"
  by (cases ev) (auto intro: guard_inv_call guard_inv_delay guard_inv_settled)

lemma guard_inv_run:
  "guard_inv g \<Longrightarrow> guard_run c g evs = Some g' \<Longrightarrow> guard_inv g'"
  by (induction evs arbitrary: g) (auto split: option.splits dest: guard_inv_step)

lemma guard_run_append:
  "guard_run c g (xs @ ys) = (case guard_run c g xs of None \<Rightarrow> None | Some g' \<Rightarrow> guard_run c g' ys)"
  by (induction xs arbitrary: g) (auto split: option.splits)

lemma call_while_active:
  "activeKey g \<Longrightarrow>
   replacement_method c a g =
     g\<lparr>invocations := Suc (invocations g), scheduledCallKey := Some a,
       promises := promises g @ [(invocations g, Resolved)]\<rparr>"
  by (simp add: replacement_method_def Let_def settle_promise_def)

lemma calls_while_active:
  assumes "activeKey g" "as \<noteq> []"
  shows "\<exists>g'. guard_run c g (map Call as) = Some g' \<and> activeKey g' \<and>
           suspended g' = suspended g \<and> executions g' = executions g \<and>
           scheduledCallKey g' = Some (last as)"
  using assms
proof (induction as arbitrary: g)
  case Nil
  then show ?case by simp
next
  case (Cons a as)
  let ?g1 = "replacement_method c a g"
  have g1: "activeKey ?g1" "suspended ?g1 = suspended g" "executions ?g1 = executions g"
    "scheduledCallKey ?g1 = Some a"
    using Cons.prems(1) by (simp_all add: call_while_active)
  show ?case
  proof (cases "as = []")
    case True
    then show ?thesis using g1 by simp
  next
    case False
    from Cons.IH[OF g1(1) False] obtain g' where
      "guard_run c ?g1 (map Call as) = Some g'" "activeKey g'" "suspended g' = suspended ?g1"
      "executions g' = executions ?g1" "scheduledCallKey g' = Some (last as)"
      by blast
    then show ?thesis using g1 False by simp
  qed
qed

lemma settle_ok_then_rerun:
  assumes "suspended g = [(i, AwaitCall a)]" "scheduledCallKey g = Some b"
  shows "\<exists>g'. guard_run c g (CallSettled i None # (if delay c = None then [] else [DelayElapsed i])) = Some g' \<and>
           activeKey g' \<and> suspended g' = [(i, AwaitCall b)] \<and>
           executions g' = executions g @ [b] \<and> scheduledCallKey g' = None"
  using assms
  by (auto simp add: after_call_def run_loop_def Let_def resume_def suspend_def
        invoke_scheduled_def)

lemma settle_then_idle:
  assumes "suspended g = [(i, AwaitCall a)]" "scheduledCallKey g = None"
  shows "\<exists>g'. guard_step c g (CallSettled i r) = Some g' \<and>
           \<not> activeKey g' \<and> suspended g' = [] \<and>
           executions g' = executions g \<and> scheduledCallKey g' = None"
  using assms
  by (cases r) (auto simp add: after_call_def run_loop_def Let_def resume_def settle_promise_def)

lemma calls_during_execution:
  assumes "activeKey g" and "suspended g = [(i, AwaitCall a)]" and "as \<noteq> []"
  shows "(\<exists>g'. guard_run c g (map Call as @ rerun_events c i) = Some g' \<and>
            suspended g' = [(i, AwaitCall (last as))] \<and>
            executions g' = executions g @ [last as] \<and> scheduledCallKey g' = None) \<and>
         (\<exists>g'. guard_run c g (map Call as @ rerun_events c i @ [CallSettled i r]) = Some g' \<and>
            suspended g' = [] \<and> \<not> activeKey g' \<and>
            executions g' = executions g @ [last as] \<and> scheduledCallKey g' = None)"
proof -
  from calls_while_active[OF assms(1,3), of c] obtain g1 where g1:
    "guard_run c g (map Call as) = Some g1" "activeKey g1" "suspended g1 = suspended g"
    "executions g1 = executions g" "scheduledCallKey g1 = Some (last as)"
    by blast
  from settle_ok_then_rerun[of g1 i a "last as" c] g1 assms(2) obtain g2 where g2:
    "guard_run c g1 (rerun_events c i) = Some g2" "activeKey g2"
    "suspended g2 = [(i, AwaitCall (last as))]" "executions g2 = executions g1 @ [last as]"
    "scheduledCallKey g2 = None"
    unfolding rerun_events_def by auto
  from settle_then_idle[OF g2(3,5), of c r] obtain g3 where g3:
    "guard_step c g2 (CallSettled i r) = Some g3" "\<not> activeKey g3" "suspended g3 = []"
    "executions g3 = executions g2" "scheduledCallKey g3 = None"
    by blast
  have A: "guard_run c g (map Call as @ rerun_events c i) = Some g2"
    using g1(1) g2(1) by (simp add: guard_run_append)
  have B: "guard_run c g (map Call as @ rerun_events c i @ [CallSettled i r]) = Some g3"
    using g1(1) g2(1) g3(1) by (simp add: guard_run_append)
  show ?thesis using A B g1 g2 g3 by simp
qed

lemma promises_step:
  "guard_step c g ev = Some g' \<Longrightarrow> \<exists>ps. promises g' = promises g @ ps"
  by (cases ev)
     (auto simp add: replacement_method_def run_loop_def Let_def invoke_scheduled_def
        suspend_def settle_promise_def resume_def after_call_def
        split: option.splits if_splits await_point.splits)

lemma promises_run:
  "guard_run c g evs = Some g' \<Longrightarrow> \<exists>ps. promises g' = promises g @ ps"
proof (induction evs arbitrary: g)
  case Nil
  then show ?case by simp
next
  case (Cons ev evs)
  then obtain g1 where g1: "guard_step c g ev = Some g1" "guard_run c g1 evs = Some g'"
    by (auto split: option.splits)
  from promises_step[OF g1(1)] Cons.IH[OF g1(2)] show ?case by auto
qed

lemma map_of_kept: "map_of xs i = Some r \<Longrightarrow> map_of (xs @ ys) i = Some r"
  by (simp add: map_add_Some_iff)

lemma map_of_new:
  "\<forall>r. (i, r) \<notin> set xs \<Longrightarrow> map_of (xs @ [(i, v)]) i = Some v"
proof -
  assume "\<forall>r. (i, r) \<notin> set xs"
  then have "map_of xs i = None" by (metis map_of_SomeD not_Some_eq)
  then show ?thesis by (simp add: map_add_Some_iff)
qed

lemma reachable_guard_inv: "guard_run c fresh_owner evs = Some g \<Longrightarrow> guard_inv g"
  using guard_inv_fresh guard_inv_run by blast

lemmas guard_defs = fresh_owner_def replacement_method_def run_loop_def invoke_scheduled_def
  after_call_def suspend_def resume_def settle_promise_def in_flight_def rerun_events_def Let_def

lemma run_two_calls:
  "guard_run plain_guard fresh_owner [Call 1, Call 2] = Some running_1_pending_2"
  by (simp add: guard_defs plain_guard_def running_1_pending_2_def)

lemma calls_during_delay_join_the_run:
  assumes "activeKey g" and "suspended g = [(i, AwaitDelay)]" and "as \<noteq> []"
  shows "\<exists>g'. guard_run c g (map Call as @ [DelayElapsed i, CallSettled i r]) = Some g' \<and>
           suspended g' = [] \<and> \<not> activeKey g' \<and>
           executions g' = executions g @ [last as] \<and> scheduledCallKey g' = None"
proof -
  from calls_while_active[OF assms(1,3), of c] obtain g1 where g1:
    "guard_run c g (map Call as) = Some g1" "activeKey g1" "suspended g1 = suspended g"
    "executions g1 = executions g" "scheduledCallKey g1 = Some (last as)"
    by blast
  let ?g2 = "invoke_scheduled i (resume i g1)"
  have s2: "guard_step c g1 (DelayElapsed i) = Some ?g2"
    using g1(3) assms(2) by simp
  have g2: "suspended ?g2 = [(i, AwaitCall (last as))]" "scheduledCallKey ?g2 = None"
    "executions ?g2 = executions g @ [last as]"
    using g1 assms(2) by (simp_all add: invoke_scheduled_def resume_def suspend_def)
  from settle_then_idle[OF g2(1,2), of c r] obtain g3 where g3:
    "guard_step c ?g2 (CallSettled i r) = Some g3" "\<not> activeKey g3" "suspended g3 = []"
    "executions g3 = executions ?g2" "scheduledCallKey g3 = None"
    by blast
  have "guard_run c g (map Call as @ [DelayElapsed i, CallSettled i r]) = Some g3"
    using g1(1) s2 g3(1) by (simp add: guard_run_append)
  then show ?thesis using g3 g2 by simp
qed

subsection \<open>Setup, coalescing, failures\<close>

text \<open>
  \<^bold>\<open>C8\<close> (as amended). The decorator \<^verbatim>\<open>debounce\<close> with the decorator context rejects,
  when it is set up and before any call of the method, a delay that is zero or
  negative (the negative one already when the \<^verbatim>\<open>Duration\<close> is built, the zero one by
  the decorator factory itself, whatever the context) and a context whose kind is
  not \<^verbatim>\<open>"method"\<close>; it accepts a strictly positive delay, or no delay, on a method.
  The variant of \<^verbatim>\<open>debounce\<close> that takes a property descriptor accepts every
  \<^verbatim>\<open>Duration\<close>, zero included, and rejects at setup only a negative number of
  milliseconds (no such \<^verbatim>\<open>Duration\<close> exists), a target or descriptor that is not an
  object, and a property key that is not a string.
\<close>

theorem setup_checks:
  "(ms \<le> 0 \<longrightarrow> isl (setup_with_delay ms ctx)) \<and>
   (toMilliSeconds d \<le> 0 \<longrightarrow> isl (debounce (IsDuration d) co)) \<and>
   (ctx_kind ctx \<noteq> JString ''method'' \<longrightarrow>
      isl (setup_with_delay ms ctx) \<and> isl (setup_without_delay ctx)) \<and>
   (0 < ms \<and> ctx_kind ctx = JString ''method'' \<longrightarrow>
      setup_with_delay ms ctx = Inr \<lparr>methodName = ctx_name ctx, delay = Some (Duration ms)\<rparr>) \<and>
   (ctx_kind ctx = JString ''method'' \<longrightarrow>
      setup_without_delay ctx = Inr \<lparr>methodName = ctx_name ctx, delay = None\<rparr>) \<and>
   (0 \<le> ms \<longrightarrow>
      legacy_setup_with_delay ms JObject (JString k) JObject =
        Inr \<lparr>methodName = k, delay = Some (Duration ms)\<rparr>) \<and>
   (ms < 0 \<or> target \<noteq> JObject \<or> (\<forall>n. propertyKey \<noteq> JString n) \<or> descriptor \<noteq> JObject \<longrightarrow>
      isl (legacy_setup_with_delay ms target propertyKey descriptor))"
proof -
  have A: "isl (setup_with_delay ms ctx)" if "ms \<le> 0"
    using that by (simp add: setup_with_delay_def fromMilliSeconds_def debounce_def)
  have B: "isl (debounce (IsDuration d) co)" if "toMilliSeconds d \<le> 0"
    using that by (simp add: debounce_def)
  have C: "isl (setup_with_delay ms ctx) \<and> isl (setup_without_delay ctx)"
    if "ctx_kind ctx \<noteq> JString ''method''"
    using that
    by (cases "ctx_kind ctx")
       (auto simp add: setup_with_delay_def setup_without_delay_def fromMilliSeconds_def
         debounce_def apply_decorator_def createReplacementMethod_def)
  have D: "setup_with_delay ms ctx = Inr \<lparr>methodName = ctx_name ctx, delay = Some (Duration ms)\<rparr>"
    if "0 < ms \<and> ctx_kind ctx = JString ''method''"
    using that
    by (simp add: setup_with_delay_def fromMilliSeconds_def debounce_def apply_decorator_def
        createReplacementMethod_def)
  have E: "setup_without_delay ctx = Inr \<lparr>methodName = ctx_name ctx, delay = None\<rparr>"
    if "ctx_kind ctx = JString ''method''"
    using that
    by (simp add: setup_without_delay_def debounce_def apply_decorator_def
        createReplacementMethod_def)
  have F: "legacy_setup_with_delay ms JObject (JString k) JObject =
        Inr \<lparr>methodName = k, delay = Some (Duration ms)\<rparr>" if "0 \<le> ms"
    using that
    by (simp add: legacy_setup_with_delay_def fromMilliSeconds_def debounce_legacy_def
        legacy_decorator_def legacy_install_def ensure_object_def ensure_string_def)
  have G: "isl (legacy_setup_with_delay ms target propertyKey descriptor)"
    if "ms < 0 \<or> target \<noteq> JObject \<or> (\<forall>n. propertyKey \<noteq> JString n) \<or> descriptor \<noteq> JObject"
    using that
    by (cases target; cases propertyKey; cases descriptor)
       (auto simp add: legacy_setup_with_delay_def fromMilliSeconds_def debounce_legacy_def
         legacy_decorator_def legacy_install_def ensure_object_def ensure_string_def)
  show ?thesis using A B C D E F G by blast
qed

text \<open>
  The setup at a zero, a negative and a positive delay, on a method and on a getter.
\<close>

theorem setup_checks_witness:
  "setup_with_delay 0 method_context = Inl (InvalidArgumentException ''delay'') \<and>
   setup_with_delay (- 5) method_context = Inl (InvalidArgumentException ''ms'') \<and>
   debounce (IsDuration (Duration 0)) None = Inl (InvalidArgumentException ''delay'') \<and>
   setup_with_delay 50 getter_context = Inl (InvalidArgumentException ''kind'') \<and>
   setup_without_delay getter_context = Inl (InvalidArgumentException ''kind'') \<and>
   setup_with_delay 50 method_context = Inr \<lparr>methodName = ''save'', delay = Some (Duration 50)\<rparr> \<and>
   setup_without_delay method_context = Inr \<lparr>methodName = ''save'', delay = None\<rparr> \<and>
   legacy_setup_with_delay 50 JObject (JString ''save'') JObject =
     Inr \<lparr>methodName = ''save'', delay = Some (Duration 50)\<rparr> \<and>
   legacy_setup_with_delay 50 JObject JNoValue JObject = Inl (ArgumentNullException ''propertyKey'')"
  using setup_checks[of 0 method_context "Duration 0" None "''save''" JObject JNoValue JObject]
    setup_checks[of 50 getter_context "Duration 0" None "''save''" JObject JNoValue JObject]
    setup_checks[of 50 method_context "Duration 0" None "''save''" JObject JNoValue JObject]
    setup_checks[of "- 5" method_context "Duration 0" None "''save''" JObject JNoValue JObject]
  by (simp add: setup_with_delay_def setup_without_delay_def fromMilliSeconds_def debounce_def
      apply_decorator_def createReplacementMethod_def legacy_setup_with_delay_def
      debounce_legacy_def legacy_decorator_def legacy_install_def ensure_object_def
      ensure_string_def method_context_def getter_context_def)

text \<open>
  The claim as stated fails for the property-descriptor variant: a delay of zero
  milliseconds goes through the factory and through the application of the decorator
  to a method, and the guard is installed with that delay.
\<close>

theorem zero_delay_counterexample:
  "fromMilliSeconds 0 = Inr (Duration 0) \<and>
   debounce_legacy (LDuration (Duration 0)) JNoValue JNoValue = Inr (LDecorator 0) \<and>
   legacy_decorator 0 JObject (JString ''save'') JObject =
     Inr \<lparr>methodName = ''save'', delay = Some (Duration 0)\<rparr> \<and>
   legacy_setup_with_delay 0 JObject (JString ''save'') JObject =
     Inr \<lparr>methodName = ''save'', delay = Some (Duration 0)\<rparr>"
  by (simp add: legacy_setup_with_delay_def fromMilliSeconds_def debounce_legacy_def
      legacy_decorator_def legacy_install_def ensure_object_def ensure_string_def)

text \<open>
  \<^bold>\<open>C2\<close>. In every state that calls, elapsed delays and settled executions can
  reach from a fresh owner, at most one execution of the wrapped method is in flight,
  and the flag is set exactly while an invocation is suspended in the loop (awaiting
  the settle delay or the execution). A call that arrives while the flag is set only
  replaces the pending call and returns: the suspended invocation and the executions
  are as before. A call that arrives while the flag is clear starts the run loop:
  its invocation is the only one suspended, at the delay when one is configured,
  otherwise at the execution of its own arguments.
\<close>

theorem one_execution_in_flight:
  assumes "guard_run c fresh_owner evs = Some g"
  shows "length (in_flight g) \<le> 1 \<and>
         (activeKey g \<longleftrightarrow> suspended g \<noteq> []) \<and>
         (activeKey g \<longrightarrow>
            guard_step c g (Call a) =
              Some (g\<lparr>invocations := Suc (invocations g), scheduledCallKey := Some a,
                      promises := promises g @ [(invocations g, Resolved)]\<rparr>)) \<and>
         (\<not> activeKey g \<longrightarrow>
            (\<exists>g'. guard_step c g (Call a) = Some g' \<and> activeKey g' \<and>
               suspended g' = [(invocations g, if delay c = None then AwaitCall a else AwaitDelay)] \<and>
               executions g' = executions g @ (if delay c = None then [a] else [])))"
proof -
  have inv: "guard_inv g" using assms by (rule reachable_guard_inv)
  from inv show ?thesis
  proof (rule suspended_cases)
    assume "suspended g = []" "\<not> activeKey g"
    then show ?thesis
      by (auto simp add: in_flight_def replacement_method_def run_loop_def Let_def
          invoke_scheduled_def suspend_def)
  next
    fix i p assume "suspended g = [(i, p)]" "activeKey g"
    then show ?thesis
      by (cases p) (simp_all add: in_flight_def call_while_active)
  qed
qed

text \<open>
  Two calls without a delay: the first is executing, the second pending; a third
  call only replaces the pending one. On the fresh owner a call starts the loop.
\<close>

theorem one_execution_in_flight_witness:
  "guard_run plain_guard fresh_owner [Call 1, Call 2] = Some running_1_pending_2 \<and>
   length (in_flight running_1_pending_2) \<le> 1 \<and>
   activeKey running_1_pending_2 \<and>
   guard_step plain_guard running_1_pending_2 (Call 3) =
     Some (running_1_pending_2\<lparr>invocations := 3, scheduledCallKey := Some 3,
             promises := [(1, Resolved), (2, Resolved)]\<rparr>) \<and>
   \<not> activeKey (fresh_owner :: (nat, nat) owner) \<and>
   guard_step plain_guard (fresh_owner :: (nat, nat) owner) (Call 1) = Some running_1"
proof -
  have r0: "guard_run plain_guard (fresh_owner :: (nat, nat) owner) [] = Some fresh_owner"
    by simp
  show ?thesis
    using one_execution_in_flight[OF run_two_calls, of 3] one_execution_in_flight[OF r0, of 1]
      run_two_calls
    by (simp add: guard_defs plain_guard_def running_1_pending_2_def running_1_def)
qed

text \<open>
  \<^bold>\<open>C1\<close> (as amended). Let one or more calls arrive while the flag is set.
  \<^item> If they arrive while an execution of the wrapped method is in flight (its run
    has taken its call, after the settle delay if there is one) and the execution
    then completes without failure, exactly one further execution follows (after
    the settle delay, when one is configured): its arguments are those of the last
    of these calls, the arguments of the others are never executed, and when it has
    settled, however it ends, the guard is idle with nothing pending.
  \<^item> If they arrive while the run still awaits its settle delay, the run itself
    executes the arguments of the last of them, and when that execution has settled,
    however it ends, the guard is idle with nothing pending: no further execution
    follows.
\<close>

theorem coalesced_calls_run_once:
  assumes "activeKey g" and "as \<noteq> []"
  shows "(suspended g = [(i, AwaitCall a)] \<longrightarrow>
            (\<exists>g'. guard_run c g (map Call as @ rerun_events c i) = Some g' \<and>
               suspended g' = [(i, AwaitCall (last as))] \<and>
               executions g' = executions g @ [last as] \<and> scheduledCallKey g' = None) \<and>
            (\<exists>g'. guard_run c g (map Call as @ rerun_events c i @ [CallSettled i r]) = Some g' \<and>
               suspended g' = [] \<and> \<not> activeKey g' \<and>
               executions g' = executions g @ [last as] \<and> scheduledCallKey g' = None)) \<and>
         (suspended g = [(i, AwaitDelay)] \<longrightarrow>
            (\<exists>g'. guard_run c g (map Call as @ [DelayElapsed i, CallSettled i r]) = Some g' \<and>
               suspended g' = [] \<and> \<not> activeKey g' \<and>
               executions g' = executions g @ [last as] \<and> scheduledCallKey g' = None))"
  using calls_during_execution[OF assms(1) _ assms(2), of i a c r]
    calls_during_delay_join_the_run[OF assms(1) _ assms(2), of i c r]
  by blast

text \<open>
  Calls with 2 and 3 while the call with 1 executes: the executions are 1 and 3.
  Calls with 2 and 3 while the call with 1 awaits its delay: the one execution is 3.
\<close>

theorem coalesced_calls_run_once_witness:
  "activeKey running_1 \<and> suspended running_1 = [(0, AwaitCall 1)] \<and> [2, 3] \<noteq> ([] :: nat list) \<and>
   guard_run plain_guard running_1 [Call 2, Call 3, CallSettled 0 None] =
     Some \<lparr>activeKey = True, scheduledCallKey = None, invocations = 3,
           suspended = [(0, AwaitCall 3)], promises = [(1, Resolved), (2, Resolved)],
           executions = [1, 3]\<rparr> \<and>
   guard_run plain_guard running_1 [Call 2, Call 3, CallSettled 0 None, CallSettled 0 None] =
     Some \<lparr>activeKey = False, scheduledCallKey = None, invocations = 3,
           suspended = [], promises = [(1, Resolved), (2, Resolved), (0, Resolved)],
           executions = [1, 3]\<rparr> \<and>
   activeKey waiting_1 \<and> suspended waiting_1 = [(0, AwaitDelay)] \<and>
   guard_run delayed_guard waiting_1 [Call 2, Call 3, DelayElapsed 0, CallSettled 0 None] =
     Some \<lparr>activeKey = False, scheduledCallKey = None, invocations = 3,
           suspended = [], promises = [(1, Resolved), (2, Resolved), (0, Resolved)],
           executions = [3]\<rparr>"
proof -
  have h: "activeKey running_1" "[2, 3] \<noteq> ([] :: nat list)"
    "suspended running_1 = [(0, AwaitCall 1)]"
    by (simp_all add: running_1_def)
  have h': "activeKey waiting_1" "suspended waiting_1 = [(0, AwaitDelay)]"
    by (simp_all add: waiting_1_def)
  show ?thesis
    using coalesced_calls_run_once[OF h(1,2), of 0 1 plain_guard None]
      coalesced_calls_run_once[OF h'(1) h(2), of 0 1 delayed_guard None] h h'
    by (simp add: guard_defs plain_guard_def delayed_guard_def running_1_def waiting_1_def)
qed

text \<open>
  With a delay configured, the flag is set while the first call awaits the delay.
  Two more calls arrive while it is set. The run then executes the arguments of the
  last call, and when it completes the guard is idle: the log holds one execution
  and no further one can follow, so the calls made while the run was active produced
  no additional execution after it.
\<close>

theorem coalesced_calls_counterexample:
  "guard_run delayed_guard (fresh_owner :: (nat, nat) owner) [Call 1] =
     Some \<lparr>activeKey = True, scheduledCallKey = Some 1, invocations = 1,
           suspended = [(0, AwaitDelay)], promises = [], executions = []\<rparr> \<and>
   guard_run delayed_guard (fresh_owner :: (nat, nat) owner) [Call 1, Call 2, Call 3] =
     Some \<lparr>activeKey = True, scheduledCallKey = Some 3, invocations = 3,
           suspended = [(0, AwaitDelay)], promises = [(1, Resolved), (2, Resolved)],
           executions = []\<rparr> \<and>
   guard_run delayed_guard (fresh_owner :: (nat, nat) owner)
       [Call 1, Call 2, Call 3, DelayElapsed 0, CallSettled 0 None] =
     Some \<lparr>activeKey = False, scheduledCallKey = None, invocations = 3,
           suspended = [], promises = [(1, Resolved), (2, Resolved), (0, Resolved)],
           executions = [3]\<rparr>"
  by (simp add: guard_defs delayed_guard_def)

text \<open>
  \<^bold>\<open>C6\<close> (as amended). When the execution in flight fails, the flag is cleared and
  the failure leaves the loop: the promise of the invocation that ran the loop
  rejects, no invocation remains suspended, and the pending slot and the log of
  executions are left as they were, so a call recorded during the failing run stays
  pending and is not executed by that loop. In every state reached afterwards the
  flag is set only while an invocation is suspended in the loop (one that clears it
  when it resumes): it never stays stuck.
\<close>

theorem failing_run_clears_flag:
  assumes "guard_run c fresh_owner evs = Some g" and "suspended g = [(i, AwaitCall a)]"
  shows "guard_step c g (CallSettled i (Some e)) =
           Some (g\<lparr>activeKey := False, suspended := [],
                   promises := promises g @ [(i, Rejected (Thrown e))]\<rparr>) \<and>
         (\<forall>evs' g'. guard_run c g evs' = Some g' \<and> activeKey g' \<longrightarrow> suspended g' \<noteq> [])"
proof -
  have inv: "guard_inv g" using assms(1) by (rule reachable_guard_inv)
  have "guard_step c g (CallSettled i (Some e)) =
           Some (g\<lparr>activeKey := False, suspended := [],
                   promises := promises g @ [(i, Rejected (Thrown e))]\<rparr>)"
    using assms(2) by (simp add: after_call_def resume_def settle_promise_def Let_def)
  moreover have "suspended g' \<noteq> []" if "guard_run c g evs' = Some g'" "activeKey g'" for evs' g'
    using guard_inv_run[OF inv that(1)] that(2) by (simp add: guard_inv_def)
  ultimately show ?thesis by blast
qed

text \<open>
  The call with 1 executes, the call with 2 is pending, and the execution fails
  with 7.
\<close>

theorem failing_run_clears_flag_witness:
  "guard_run plain_guard fresh_owner [Call 1, Call 2] = Some running_1_pending_2 \<and>
   suspended running_1_pending_2 = [(0, AwaitCall 1)] \<and>
   guard_step plain_guard running_1_pending_2 (CallSettled 0 (Some 7)) =
     Some \<lparr>activeKey = False, scheduledCallKey = Some 2, invocations = 2,
           suspended = [], promises = [(1, Resolved), (0, Rejected (Thrown 7))],
           executions = [1]\<rparr> \<and>
   guard_run plain_guard running_1_pending_2 [CallSettled 0 (Some 7), Call 3] =
     Some \<lparr>activeKey = True, scheduledCallKey = None, invocations = 3,
           suspended = [(2, AwaitCall 3)],
           promises = [(1, Resolved), (0, Rejected (Thrown 7))],
           executions = [1, 3]\<rparr> \<and>
   [(2, AwaitCall 3)] \<noteq> ([] :: (nat \<times> nat await_point) list)"
proof -
  let ?g = "\<lparr>activeKey = True, scheduledCallKey = None, invocations = 3,
           suspended = [(2, AwaitCall 3)],
           promises = [(1, Resolved), (0, Rejected (Thrown 7))],
           executions = [1, 3]\<rparr> :: (nat, nat) owner"
  have h: "suspended running_1_pending_2 = [(0, AwaitCall 1)]"
    by (simp add: running_1_pending_2_def)
  have r: "guard_run plain_guard running_1_pending_2 [CallSettled 0 (Some 7), Call 3] = Some ?g"
    by (simp add: guard_defs plain_guard_def running_1_pending_2_def)
  note t = failing_run_clears_flag[OF run_two_calls h, of 7]
  from t have q: "\<forall>evs' g'. guard_run plain_guard running_1_pending_2 evs' = Some g' \<and>
      activeKey g' \<longrightarrow> suspended g' \<noteq> []" by (rule conjunct2)
  have a: "activeKey ?g" by simp
  from q r a have "suspended ?g \<noteq> []" by blast
  with t show ?thesis
    using run_two_calls h r by (simp add: running_1_pending_2_def)
qed

text \<open>
  The call with 2 is recorded while the call with 1 executes; that execution fails.
  The guard is then idle with 2 still in the pending slot and only 1 executed. The
  next call, with 3, overwrites the slot and runs: 2 is never executed.
\<close>

theorem failing_run_counterexample:
  "guard_run plain_guard (fresh_owner :: (nat, nat) owner) [Call 1, Call 2, CallSettled 0 (Some 7)] =
     Some \<lparr>activeKey = False, scheduledCallKey = Some 2, invocations = 2,
           suspended = [], promises = [(1, Resolved), (0, Rejected (Thrown 7))],
           executions = [1]\<rparr> \<and>
   guard_run plain_guard (fresh_owner :: (nat, nat) owner)
       [Call 1, Call 2, CallSettled 0 (Some 7), Call 3, CallSettled 2 None] =
     Some \<lparr>activeKey = False, scheduledCallKey = None, invocations = 3,
           suspended = [],
           promises = [(1, Resolved), (0, Rejected (Thrown 7)), (2, Resolved)],
           executions = [1, 3]\<rparr>"
  by (simp add: guard_defs plain_guard_def)

text \<open>
  \<^bold>\<open>C9\<close>. In every reachable state: when the execution in flight fails with \<open>e\<close>,
  the promise of the invocation suspended in the loop (the call that started the
  loop) rejects with \<open>e\<close>; and the promise of a call that arrives while the flag is
  set is resolved at once and is still resolved after any further events, whatever
  becomes of the executions.
\<close>

theorem promises_of_callers:
  assumes "guard_run c fresh_owner evs = Some g"
  shows "(suspended g = [(i, AwaitCall a)] \<longrightarrow>
            (\<exists>g'. guard_step c g (CallSettled i (Some e)) = Some g' \<and>
                  map_of (promises g') i = Some (Rejected (Thrown e)))) \<and>
         (activeKey g \<longrightarrow>
            (\<forall>evs' g'. guard_run c g (Call b # evs') = Some g' \<longrightarrow>
               map_of (promises g') (invocations g) = Some Resolved))"
proof -
  have inv: "guard_inv g" using assms by (rule reachable_guard_inv)
  have A: "\<exists>g'. guard_step c g (CallSettled i (Some e)) = Some g' \<and>
                  map_of (promises g') i = Some (Rejected (Thrown e))"
    if s: "suspended g = [(i, AwaitCall a)]"
  proof -
    have "\<forall>r. (i, r) \<notin> set (promises g)"
      using inv s by (auto simp add: guard_inv_def)
    then have "map_of (promises g @ [(i, Rejected (Thrown e))]) i = Some (Rejected (Thrown e))"
      by (rule map_of_new)
    then show ?thesis
      using s by (simp add: after_call_def resume_def settle_promise_def Let_def)
  qed
  have B: "map_of (promises g') (invocations g) = Some Resolved"
    if act: "activeKey g" and run: "guard_run c g (Call b # evs') = Some g'" for evs' g'
  proof -
    let ?g1 = "replacement_method c b g"
    have p1: "promises ?g1 = promises g @ [(invocations g, Resolved)]"
      using act by (simp add: call_while_active)
    have "\<forall>r. (invocations g, r) \<notin> set (promises g)"
      using inv by (auto simp add: guard_inv_def)
    then have m1: "map_of (promises ?g1) (invocations g) = Some Resolved"
      unfolding p1 by (rule map_of_new)
    from run have "guard_run c ?g1 evs' = Some g'" by simp
    from promises_run[OF this] obtain ps where "promises g' = promises ?g1 @ ps" by blast
    then show ?thesis using map_of_kept[OF m1] by simp
  qed
  show ?thesis using A B by blast
qed

text \<open>
  The call with 3 arrives while the call with 1 executes, which then fails with 7:
  the promise of the third call (number 2) is resolved, that of the first rejected.
\<close>

theorem promises_of_callers_witness:
  "guard_run plain_guard fresh_owner [Call 1, Call 2] = Some running_1_pending_2 \<and>
   suspended running_1_pending_2 = [(0, AwaitCall 1)] \<and> activeKey running_1_pending_2 \<and>
   guard_run plain_guard running_1_pending_2 [Call 3, CallSettled 0 (Some 7)] =
     Some \<lparr>activeKey = False, scheduledCallKey = Some 3, invocations = 3,
           suspended = [],
           promises = [(1, Resolved), (2, Resolved), (0, Rejected (Thrown 7))],
           executions = [1]\<rparr> \<and>
   map_of [(1, Resolved), (2, Resolved), (0, Rejected (Thrown (7::nat)))] (2::nat) = Some Resolved \<and>
   map_of [(1, Resolved), (2, Resolved), (0, Rejected (Thrown (7::nat)))] (0::nat) =
     Some (Rejected (Thrown 7))"
proof -
  have h: "suspended running_1_pending_2 = [(0, AwaitCall 1)]" "activeKey running_1_pending_2"
    by (simp_all add: running_1_pending_2_def)
  show ?thesis
    using promises_of_callers[OF run_two_calls, of 0 1 7 3] run_two_calls h
    by (simp add: guard_defs plain_guard_def running_1_pending_2_def)
qed


section \<open>Properties of the background processor\<close>

subsection \<open>Frame, outcome and invariant lemmas\<close>

lemmas exec_defs = execute_def call_errorHandler_def postExecuteCallback_def await_def
  initiateBackgroundProcessing_def setTimeout_def settled_def Let_def

declare drain.simps [simp del]

lemma drain_Nil: "actionsToProcess s = [] \<Longrightarrow> drain s = s"
  by (simp add: drain.simps)

lemma drain_Cons:
  "actionsToProcess s = a # rest \<Longrightarrow>
   drain s = drain (execute FromDispose a
     (s\<lparr>actionsToProcess := rest, actionsExecuting := actionsExecuting s @ [a]\<rparr>))"
  by (simp add: drain.simps)

lemma execute_frame [simp]:
  "isDisposed (execute cb a s) = isDisposed s"
  "disposal (execute cb a s) = disposal s"
  "actionsToProcess (execute cb a s) = actionsToProcess s"
  "nextId (execute cb a s) = nextId s"
  "started (execute cb a s) = started s @ [a]"
  by (simp_all add: exec_defs split: behaviour.splits callback.splits)

lemma settled_frame [simp]:
  "isDisposed (settled a cb p s) = isDisposed s"
  "disposal (settled a cb p s) = disposal s"
  "actionsToProcess (settled a cb p s) = actionsToProcess s"
  "nextId (settled a cb p s) = nextId s"
  "started (settled a cb p s) = started s"
  by (simp_all add: exec_defs split: behaviour.splits callback.splits awaited.splits option.splits)

lemma drain_frame:
  "isDisposed (drain s) = isDisposed s \<and> disposal (drain s) = disposal s \<and>
   nextId (drain s) = nextId s \<and> actionsToProcess (drain s) = [] \<and>
   started (drain s) = started s @ actionsToProcess s"
proof (induction s rule: drain.induct)
  case (1 s)
  show ?case
  proof (cases "actionsToProcess s")
    case Nil
    then show ?thesis by (simp add: drain_Nil)
  next
    case (Cons a rest)
    then show ?thesis using 1[OF Cons] by (simp add: drain_Cons[OF Cons])
  qed
qed

lemma fifo_step:
  assumes "bp_step s ev = Some s'"
  shows "\<exists>new. started s' @ actionsToProcess s' = started s @ actionsToProcess s @ new"
proof (cases ev)
  case (Enqueue act eh)
  then show ?thesis using assms by (auto simp add: processAction_def split: if_splits)
next
  case (Tick h)
  then show ?thesis using assms
    by (auto simp add: timer_callback_def clearTimeout_def initiateBackgroundProcessing_def
        setTimeout_def split: if_splits list.splits)
next
  case (Settle i)
  then show ?thesis using assms by (auto split: option.splits)
next
  case (Dispose k)
  then show ?thesis using assms
    by (auto simp add: dispose_def poll_def clearTimeout_def Let_def drain_frame split: option.splits)
next
  case Poll
  then show ?thesis using assms by (auto simp add: poll_def split: if_splits)
qed

lemma started_step:
  assumes "bp_step s ev = Some s'"
  shows "\<exists>new. started s' = started s @ new"
proof (cases ev)
  case (Enqueue act eh)
  then show ?thesis using assms by (auto simp add: processAction_def split: if_splits)
next
  case (Tick h)
  then show ?thesis using assms
    by (auto simp add: timer_callback_def clearTimeout_def initiateBackgroundProcessing_def
        setTimeout_def split: if_splits list.splits)
next
  case (Settle i)
  then show ?thesis using assms by (auto split: option.splits)
next
  case (Dispose k)
  then show ?thesis using assms
    by (auto simp add: dispose_def poll_def clearTimeout_def Let_def drain_frame split: option.splits)
next
  case Poll
  then show ?thesis using assms by (auto simp add: poll_def split: if_splits)
qed

lemma fifo_run:
  "bp_run s evs = Some s' \<Longrightarrow>
   (\<exists>new. started s' @ actionsToProcess s' = started s @ actionsToProcess s @ new) \<and>
   (\<exists>new. started s' = started s @ new)"
proof (induction evs arbitrary: s)
  case Nil
  then show ?case by simp
next
  case (Cons ev evs)
  then obtain s1 where s1: "bp_step s ev = Some s1" "bp_run s1 evs = Some s'"
    by (auto split: option.splits)
  from fifo_step[OF s1(1)] started_step[OF s1(1)] Cons.IH[OF s1(2)]
  show ?case by (metis append.assoc)
qed

lemma execute_outcome:
  "now_awaiting cb a s (execute cb a s) \<or> callback_ran cb a s (execute cb a s)"
  by (cases cb)
     (simp_all add: exec_defs now_awaiting_def callback_ran_def split: behaviour.splits)

lemma settled_outcome:
  "now_awaiting cb a s (settled a cb p s) \<or> callback_ran cb a s (settled a cb p s)"
  by (cases cb)
     (simp_all add: exec_defs now_awaiting_def callback_ran_def
       split: behaviour.splits awaited.splits option.splits)

lemma take_reaction_filter:
  "take_reaction i rs = Some (r, rest) \<Longrightarrow>
   length (filter P rs) = length (filter P rest) + (if P r then 1 else 0)"
proof (induction rs arbitrary: rest)
  case Nil
  then show ?case by simp
next
  case (Cons x xs)
  then show ?case by (auto split: if_splits option.splits)
qed

lemma timers_ok_execute:
  assumes "timers_ok s" "timers s = []" "cb = FromTimer \<longrightarrow> timer_reactions s = 0"
  shows "timers_ok (execute cb a s)"
  using execute_outcome[of cb a s] assms
  by (cases cb)
     (auto simp add: timers_ok_def timer_reactions_def now_awaiting_def callback_ran_def
       split: if_splits)

lemma timers_ok_settled:
  assumes "timers_ok s" "cb = FromTimer \<longrightarrow> timer_reactions s = 0 \<and> timers s = []"
  shows "timers_ok (settled a cb p s)"
  using settled_outcome[of cb a s p] assms
  by (cases cb)
     (auto simp add: timers_ok_def timer_reactions_def now_awaiting_def callback_ran_def
       split: if_splits)

lemma timers_ok_drain:
  "timers_ok s \<Longrightarrow> isDisposed s \<Longrightarrow> timers_ok (drain s)"
proof (induction s rule: drain.induct)
  case (1 s)
  show ?case
  proof (cases "actionsToProcess s")
    case Nil
    then show ?thesis using 1 by (simp add: drain_Nil)
  next
    case (Cons a rest)
    let ?m = "s\<lparr>actionsToProcess := rest, actionsExecuting := actionsExecuting s @ [a]\<rparr>"
    have m: "timers_ok ?m" "timers ?m = []" "isDisposed ?m"
      using 1(2,3) by (simp_all add: timers_ok_def timer_reactions_def)
    have "timers_ok (execute FromDispose a ?m)"
      by (rule timers_ok_execute) (use m in simp_all)
    then show ?thesis using 1(1)[OF Cons] m(3) by (simp add: drain_Cons[OF Cons])
  qed
qed

lemma timers_ok_step:
  assumes "timers_ok s" "bp_step s ev = Some s'"
  shows "timers_ok s'"
proof (cases ev)
  case (Enqueue act eh)
  then show ?thesis using assms
    by (auto simp add: processAction_def timers_ok_def timer_reactions_def split: if_splits)
next
  case (Tick h)
  then have h: "h \<in> fst ` set (timers s)" and s': "s' = timer_callback (clearTimeout h s)"
    using assms(2) by (auto split: if_splits)
  from h obtain t ts where tts: "timers s = t # ts" by (cases "timers s") auto
  with assms(1) have emp: "ts = []" "timer_reactions s = 0" "\<not> isDisposed s"
    "timeout_handle s = Some (fst t)"
    by (auto simp add: timers_ok_def)
  with h tts obtain d where ts: "timers s = [(h, d)]" by (cases t) auto
  have one: "timer_reactions s = 0" "\<not> isDisposed s" "timeout_handle s = Some h"
    using emp tts ts by auto
  let ?c = "clearTimeout h s"
  have c: "timers ?c = []" "timer_reactions ?c = 0" "\<not> isDisposed ?c" "timers_ok ?c"
    using ts one by (simp_all add: clearTimeout_def timers_ok_def timer_reactions_def)
  show ?thesis
  proof (cases "actionsToProcess s")
    case Nil
    then show ?thesis using s' c
      by (simp add: timer_callback_def clearTimeout_def initiateBackgroundProcessing_def
          setTimeout_def timers_ok_def timer_reactions_def)
  next
    case (Cons a rest)
    let ?m = "?c\<lparr>actionsToProcess := rest, actionsExecuting := actionsExecuting ?c @ [a]\<rparr>"
    have "timers_ok (execute FromTimer a ?m)"
      by (rule timers_ok_execute) (use c in \<open>simp_all add: timers_ok_def timer_reactions_def\<close>)
    then show ?thesis using s' Cons by (simp add: timer_callback_def clearTimeout_def)
  qed
next
  case (Settle i)
  then obtain a cb p rest where tr: "take_reaction i (reactions s) = Some ((a, cb, p), rest)"
    and s': "s' = settled a cb p (s\<lparr>reactions := rest\<rparr>)"
    using assms(2) by (auto split: option.splits)
  let ?m = "s\<lparr>reactions := rest\<rparr>"
  from take_reaction_filter[OF tr, of "\<lambda>r. fst (snd r) = FromTimer"]
  have cnt: "timer_reactions s = timer_reactions ?m + (if cb = FromTimer then 1 else 0)"
    by (simp add: timer_reactions_def)
  have "timers_ok (settled a cb p ?m)"
    by (rule timers_ok_settled) (use assms(1) cnt in \<open>auto simp add: timers_ok_def\<close>)
  then show ?thesis using s' by simp
next
  case (Dispose k)
  show ?thesis
  proof (cases "isDisposed s")
    case True
    then show ?thesis using Dispose assms by (simp add: dispose_def)
  next
    case False
    let ?s2 = "case timeout_handle (s\<lparr>isDisposed := True\<rparr>) of
                 Some h \<Rightarrow> clearTimeout h (s\<lparr>isDisposed := True\<rparr>)
               | None \<Rightarrow> s\<lparr>isDisposed := True\<rparr>"
    have t2: "timers ?s2 = []"
    proof (cases "timeout_handle s")
      case None
      then show ?thesis using assms(1) by (cases "timers s") (auto simp add: timers_ok_def)
    next
      case (Some h)
      then show ?thesis using assms(1)
        by (auto simp add: timers_ok_def clearTimeout_def filter_empty_conv)
    qed
    have r2: "reactions ?s2 = reactions s" "isDisposed ?s2"
      by (simp_all add: clearTimeout_def split: option.splits)
    have s2: "timers_ok ?s2" "isDisposed ?s2"
      using assms(1) t2 r2 by (simp_all add: timers_ok_def timer_reactions_def)
    have "timers_ok (if \<not> k then drain ?s2 else ?s2)"
      using s2 timers_ok_drain by auto
    moreover have "s' = poll (if \<not> k then drain ?s2 else ?s2)"
      using Dispose assms(2) False by (simp add: dispose_def Let_def)
    ultimately show ?thesis by (simp add: poll_def timers_ok_def timer_reactions_def)
  qed
next
  case Poll
  then show ?thesis using assms
    by (auto simp add: poll_def timers_ok_def timer_reactions_def split: if_splits)
qed

lemma remove_action_subset: "set (remove_action i xs) \<subseteq> set xs"
  by (induction xs) auto

lemma remove_action_others:
  "x \<in> set xs \<Longrightarrow> aid x \<noteq> i \<Longrightarrow> x \<in> set (remove_action i xs)"
  by (induction xs) auto

lemma executing_after_settled:
  "actionsExecuting (settled a cb p s) = actionsExecuting s \<or>
   actionsExecuting (settled a cb p s) = remove_action (aid a) (actionsExecuting s)"
  using settled_outcome[of cb a s p] by (auto simp add: now_awaiting_def callback_ran_def)

lemma disposal_ok_step:
  assumes "timers_ok s" "disposal_ok s" "bp_step s ev = Some s'"
  shows "disposal_ok s'"
proof (cases ev)
  case (Enqueue act eh)
  then show ?thesis using assms
    by (auto simp add: processAction_def disposal_ok_def split: if_splits)
next
  case (Tick h)
  then have h: "h \<in> fst ` set (timers s)" and s': "s' = timer_callback (clearTimeout h s)"
    using assms(3) by (auto split: if_splits)
  from h assms(1) have "\<not> isDisposed s" by (auto simp add: timers_ok_def)
  moreover have "isDisposed s' = isDisposed s" "disposal s' = disposal s"
    using s' by (simp_all add: timer_callback_def clearTimeout_def initiateBackgroundProcessing_def
        setTimeout_def split: list.splits)
  ultimately show ?thesis using assms(2) by (auto simp add: disposal_ok_def)
next
  case (Settle i)
  then obtain a cb p rest where
    s': "s' = settled a cb p (s\<lparr>reactions := rest\<rparr>)"
    using assms(3) by (auto split: option.splits)
  show ?thesis
    using executing_after_settled[of a cb p "s\<lparr>reactions := rest\<rparr>"] assms(2) s'
    by (auto simp add: disposal_ok_def)
next
  case (Dispose k)
  show ?thesis
  proof (cases "isDisposed s")
    case True
    then show ?thesis using Dispose assms by (simp add: dispose_def)
  next
    case False
    let ?s2 = "case timeout_handle (s\<lparr>isDisposed := True\<rparr>) of
                 Some h \<Rightarrow> clearTimeout h (s\<lparr>isDisposed := True\<rparr>)
               | None \<Rightarrow> s\<lparr>isDisposed := True\<rparr>"
    let ?s3 = "if \<not> k then drain ?s2 else ?s2"
    have "isDisposed ?s2" by (simp add: clearTimeout_def split: option.splits)
    then have "isDisposed ?s3" by (simp add: drain_frame)
    moreover have "s' = poll ?s3"
      using Dispose assms(3) False by (simp add: dispose_def Let_def)
    ultimately show ?thesis by (simp add: poll_def disposal_ok_def)
  qed
next
  case Poll
  then show ?thesis using assms
    by (auto simp add: poll_def disposal_ok_def split: if_splits)
qed

lemma started_ok_execute:
  assumes "aid ` set (started s) \<subseteq> set (completed s) \<union> aid ` set (actionsExecuting s)"
    and "aid ` set (actionsExecuting s) \<subseteq> insert (aid a) (aid ` set (started s))"
    and "a \<in> set (actionsExecuting s)"
  shows "started_ok (execute cb a s)"
proof -
  have st: "started (execute cb a s) = started s @ [a]" by simp
  from execute_outcome[of cb a s] show ?thesis
  proof
    assume "now_awaiting cb a s (execute cb a s)"
    then show ?thesis using assms st
      by (auto simp add: started_ok_def now_awaiting_def)
  next
    assume r: "callback_ran cb a s (execute cb a s)"
    then have c: "completed (execute cb a s) = completed s @ [aid a]"
      and e: "actionsExecuting (execute cb a s) = remove_action (aid a) (actionsExecuting s)"
      by (simp_all add: callback_ran_def)
    have "aid ` set (started s @ [a]) \<subseteq>
          set (completed s @ [aid a]) \<union> aid ` set (remove_action (aid a) (actionsExecuting s))"
      using assms(1) remove_action_others[of _ "actionsExecuting s" "aid a"] by auto
    moreover have "aid ` set (remove_action (aid a) (actionsExecuting s)) \<subseteq> aid ` set (started s @ [a])"
      using assms(2) remove_action_subset[of "aid a" "actionsExecuting s"] by auto
    ultimately show ?thesis by (simp add: started_ok_def st c e)
  qed
qed

lemma started_ok_settled:
  assumes "started_ok s"
  shows "started_ok (settled a cb p s)"
proof -
  have st: "started (settled a cb p s) = started s" by simp
  from settled_outcome[of cb a s p] show ?thesis
  proof
    assume "now_awaiting cb a s (settled a cb p s)"
    then show ?thesis using assms st
      by (auto simp add: started_ok_def now_awaiting_def)
  next
    assume r: "callback_ran cb a s (settled a cb p s)"
    then have c: "completed (settled a cb p s) = completed s @ [aid a]"
      and e: "actionsExecuting (settled a cb p s) = remove_action (aid a) (actionsExecuting s)"
      by (simp_all add: callback_ran_def)
    have "aid ` set (started s) \<subseteq>
          set (completed s @ [aid a]) \<union> aid ` set (remove_action (aid a) (actionsExecuting s))"
      using assms remove_action_others[of _ "actionsExecuting s" "aid a"]
      by (auto simp add: started_ok_def)
    moreover have "aid ` set (remove_action (aid a) (actionsExecuting s)) \<subseteq> aid ` set (started s)"
      using assms remove_action_subset[of "aid a" "actionsExecuting s"]
      unfolding started_ok_def by blast
    ultimately show ?thesis by (simp add: started_ok_def st c e)
  qed
qed

lemma started_ok_start:
  assumes "started_ok s" "actionsToProcess s = a # rest"
  shows "started_ok (execute cb a
           (s\<lparr>actionsToProcess := rest, actionsExecuting := actionsExecuting s @ [a]\<rparr>))"
  by (rule started_ok_execute) (use assms in \<open>auto simp add: started_ok_def\<close>)

lemma started_ok_drain: "started_ok s \<Longrightarrow> started_ok (drain s)"
proof (induction s rule: drain.induct)
  case (1 s)
  show ?case
  proof (cases "actionsToProcess s")
    case Nil
    then show ?thesis using 1 by (simp add: drain_Nil)
  next
    case (Cons a rest)
    then show ?thesis
      using 1(1)[OF Cons started_ok_start[OF 1(2) Cons]] by (simp add: drain_Cons[OF Cons])
  qed
qed

lemma started_ok_fields:
  "started s' = started s \<Longrightarrow> completed s' = completed s \<Longrightarrow>
   actionsExecuting s' = actionsExecuting s \<Longrightarrow> started_ok s' = started_ok s"
  by (simp add: started_ok_def)

lemma started_ok_step:
  assumes "started_ok s" "bp_step s ev = Some s'"
  shows "started_ok s'"
proof (cases ev)
  case (Enqueue act eh)
  then have "s' = s \<or> (started s' = started s \<and> completed s' = completed s \<and>
      actionsExecuting s' = actionsExecuting s)"
    using assms(2) by (auto simp add: processAction_def split: if_splits)
  then show ?thesis using assms(1) started_ok_fields by blast
next
  case (Tick h)
  then have s': "s' = timer_callback (clearTimeout h s)"
    using assms(2) by (auto split: if_splits)
  have c: "started_ok (clearTimeout h s)"
    using assms(1) by (simp add: clearTimeout_def started_ok_def)
  show ?thesis
  proof (cases "actionsToProcess s")
    case Nil
    then show ?thesis using s' assms(1)
      by (simp add: timer_callback_def clearTimeout_def initiateBackgroundProcessing_def
          setTimeout_def started_ok_def)
  next
    case (Cons a rest)
    then have "actionsToProcess (clearTimeout h s) = a # rest" by (simp add: clearTimeout_def)
    from started_ok_start[OF c this, of FromTimer] show ?thesis
      using s' Cons by (simp add: timer_callback_def clearTimeout_def)
  qed
next
  case (Settle i)
  then obtain a cb p rest where
    s': "s' = settled a cb p (s\<lparr>reactions := rest\<rparr>)"
    using assms(2) by (auto split: option.splits)
  have "started_ok (s\<lparr>reactions := rest\<rparr>)" using assms(1) by (simp add: started_ok_def)
  then show ?thesis unfolding s' by (rule started_ok_settled)
next
  case (Dispose k)
  show ?thesis
  proof (cases "isDisposed s")
    case True
    then show ?thesis using Dispose assms by (simp add: dispose_def)
  next
    case False
    let ?s2 = "case timeout_handle (s\<lparr>isDisposed := True\<rparr>) of
                 Some h \<Rightarrow> clearTimeout h (s\<lparr>isDisposed := True\<rparr>)
               | None \<Rightarrow> s\<lparr>isDisposed := True\<rparr>"
    have s2: "started_ok ?s2"
      using assms(1) by (simp add: started_ok_def clearTimeout_def split: option.splits)
    have "started_ok (if \<not> k then drain ?s2 else ?s2)"
      using s2 started_ok_drain by auto
    moreover have "s' = poll (if \<not> k then drain ?s2 else ?s2)"
      using Dispose assms(2) False by (simp add: dispose_def Let_def)
    ultimately show ?thesis by (simp add: poll_def started_ok_def)
  qed
next
  case Poll
  then have "started s' = started s \<and> completed s' = completed s \<and>
      actionsExecuting s' = actionsExecuting s"
    using assms(2) by (auto simp add: poll_def split: if_splits)
  then show ?thesis using assms(1) started_ok_fields by blast
qed

lemma take_reaction_split:
  "take_reaction i rs = Some (r, rest) \<Longrightarrow>
   \<exists>xs ys. rs = xs @ r # ys \<and> rest = xs @ ys \<and> aid (fst r) = i"
proof (induction rs arbitrary: rest)
  case Nil
  then show ?case by simp
next
  case (Cons x xs)
  show ?case
  proof (cases "aid (fst x) = i")
    case True
    then show ?thesis using Cons.prems by auto
  next
    case False
    then obtain rest' where r: "take_reaction i xs = Some (r, rest')" "rest = x # rest'"
      using Cons.prems by (auto split: option.splits)
    from Cons.IH[OF r(1)] obtain ys zs where "xs = ys @ r # zs" "rest' = ys @ zs" "aid (fst r) = i"
      by blast
    then have "x # xs = (x # ys) @ r # zs \<and> rest = (x # ys) @ zs \<and> aid (fst r) = i"
      using r(2) by simp
    then show ?thesis by blast
  qed
qed

lemma remove_action_absent:
  "i \<notin> aid ` set xs \<Longrightarrow> aid a = i \<Longrightarrow> remove_action i (xs @ [a]) = xs"
  by (induction xs) auto

lemma ids_ok_execute:
  assumes "ids_ok s" "aid a \<notin> (\<lambda>r. aid (fst r)) ` set (reactions s)"
    "a \<in> set (actionsExecuting s)"
    "distinct (map aid (started s @ a # actionsToProcess s))"
    "aid a < nextId s"
  shows "ids_ok (execute cb a s)"
proof -
  have fr: "started (execute cb a s) = started s @ [a]"
    "actionsToProcess (execute cb a s) = actionsToProcess s"
    "nextId (execute cb a s) = nextId s" by simp_all
  have A: "distinct (map aid (started (execute cb a s) @ actionsToProcess (execute cb a s)))"
    using assms(4) by (simp add: fr)
  have B: "\<forall>x \<in> set (started (execute cb a s) @ actionsToProcess (execute cb a s)).
             aid x < nextId (execute cb a s)"
    using assms(1,5) by (auto simp add: fr ids_ok_def)
  from execute_outcome[of cb a s] have
    "distinct (map (\<lambda>r. aid (fst r)) (reactions (execute cb a s))) \<and>
     (\<forall>r \<in> set (reactions (execute cb a s)). aid (fst r) \<in> aid ` set (actionsExecuting (execute cb a s)))"
  proof
    assume "now_awaiting cb a s (execute cb a s)"
    then show ?thesis using assms(1,2,3)
      by (auto simp add: now_awaiting_def ids_ok_def)
  next
    assume "callback_ran cb a s (execute cb a s)"
    then have r: "reactions (execute cb a s) = reactions s"
      "actionsExecuting (execute cb a s) = remove_action (aid a) (actionsExecuting s)"
      by (simp_all add: callback_ran_def)
    have "\<forall>r \<in> set (reactions s). aid (fst r) \<in> aid ` set (remove_action (aid a) (actionsExecuting s))"
    proof
      fix x assume x: "x \<in> set (reactions s)"
      then have "aid (fst x) \<noteq> aid a" using assms(2) by (metis imageI)
      moreover from x assms(1) obtain y where "y \<in> set (actionsExecuting s)" "aid y = aid (fst x)"
        by (auto simp add: ids_ok_def)
      ultimately show "aid (fst x) \<in> aid ` set (remove_action (aid a) (actionsExecuting s))"
        using remove_action_others[of y "actionsExecuting s" "aid a"] by (metis imageI)
    qed
    then show ?thesis using assms(1) r by (simp add: ids_ok_def)
  qed
  with A B show ?thesis by (simp add: ids_ok_def)
qed

lemma ids_ok_start:
  assumes "ids_ok s" "started_ok s" "actionsToProcess s = a # rest"
  shows "ids_ok (execute cb a
           (s\<lparr>actionsToProcess := rest, actionsExecuting := actionsExecuting s @ [a]\<rparr>))"
proof (rule ids_ok_execute)
  let ?m = "s\<lparr>actionsToProcess := rest, actionsExecuting := actionsExecuting s @ [a]\<rparr>"
  have notin: "aid a \<notin> aid ` set (started s)"
    using assms(1,3) by (auto simp add: ids_ok_def)
  then have notex: "aid a \<notin> aid ` set (actionsExecuting s)"
    using assms(2) by (auto simp add: started_ok_def)
  show "ids_ok ?m" using assms(1,3) by (auto simp add: ids_ok_def)
  show "aid a \<notin> (\<lambda>r. aid (fst r)) ` set (reactions ?m)"
    using notex assms(1) by (auto simp add: ids_ok_def)
  show "a \<in> set (actionsExecuting ?m)" by simp
  show "distinct (map aid (started ?m @ a # actionsToProcess ?m))"
    using assms(1,3) by (simp add: ids_ok_def)
  show "aid a < nextId ?m" using assms(1,3) by (simp add: ids_ok_def)
qed

lemma ids_ok_drain: "ids_ok s \<Longrightarrow> started_ok s \<Longrightarrow> ids_ok (drain s)"
proof (induction s rule: drain.induct)
  case (1 s)
  show ?case
  proof (cases "actionsToProcess s")
    case Nil
    then show ?thesis using 1 by (simp add: drain_Nil)
  next
    case (Cons a rest)
    then show ?thesis
      using 1(1)[OF Cons ids_ok_start[OF 1(2,3) Cons] started_ok_start[OF 1(3) Cons]]
      by (simp add: drain_Cons[OF Cons])
  qed
qed

lemma ids_ok_settled:
  assumes "take_reaction i (reactions s) = Some ((a, cb, p), rest)" "ids_ok s"
  shows "ids_ok (settled a cb p (s\<lparr>reactions := rest\<rparr>))"
proof -
  let ?m = "s\<lparr>reactions := rest\<rparr>"
  let ?s' = "settled a cb p ?m"
  from take_reaction_split[OF assms(1)] obtain xs ys where
    sp: "reactions s = xs @ (a, cb, p) # ys" "rest = xs @ ys" by auto
  have d: "distinct (map (\<lambda>r. aid (fst r)) rest)"
    "aid a \<notin> (\<lambda>r. aid (fst r)) ` set rest"
    "aid a \<in> aid ` set (actionsExecuting s)"
    "\<forall>r \<in> set rest. aid (fst r) \<in> aid ` set (actionsExecuting s)"
    using assms(2) sp by (auto simp add: ids_ok_def)
  have fr: "started ?s' = started s" "actionsToProcess ?s' = actionsToProcess s"
    "nextId ?s' = nextId s" by simp_all
  from settled_outcome[of cb a ?m p] have
    "distinct (map (\<lambda>r. aid (fst r)) (reactions ?s')) \<and>
     (\<forall>r \<in> set (reactions ?s'). aid (fst r) \<in> aid ` set (actionsExecuting ?s'))"
  proof
    assume "now_awaiting cb a ?m ?s'"
    then show ?thesis using d by (auto simp add: now_awaiting_def)
  next
    assume "callback_ran cb a ?m ?s'"
    then have r: "reactions ?s' = rest"
      "actionsExecuting ?s' = remove_action (aid a) (actionsExecuting s)"
      by (simp_all add: callback_ran_def)
    have "\<forall>r \<in> set rest. aid (fst r) \<in> aid ` set (remove_action (aid a) (actionsExecuting s))"
    proof
      fix x assume x: "x \<in> set rest"
      then have "aid (fst x) \<noteq> aid a" using d(2) by (metis imageI)
      moreover from x d(4) obtain y where "y \<in> set (actionsExecuting s)" "aid y = aid (fst x)"
        by auto
      ultimately show "aid (fst x) \<in> aid ` set (remove_action (aid a) (actionsExecuting s))"
        using remove_action_others[of y "actionsExecuting s" "aid a"] by (metis imageI)
    qed
    then show ?thesis using d(1) r by simp
  qed
  then show ?thesis using assms(2) by (simp add: ids_ok_def fr)
qed

lemma ids_ok_fields:
  "started s' = started s \<Longrightarrow> actionsToProcess s' = actionsToProcess s \<Longrightarrow>
   nextId s' = nextId s \<Longrightarrow> reactions s' = reactions s \<Longrightarrow>
   actionsExecuting s' = actionsExecuting s \<Longrightarrow> ids_ok s' = ids_ok s"
  by (simp add: ids_ok_def)

lemma ids_ok_step:
  assumes "ids_ok s" "started_ok s" "bp_step s ev = Some s'"
  shows "ids_ok s'"
proof (cases ev)
  case (Enqueue act eh)
  show ?thesis
  proof (cases "isDisposed s")
    case True
    then show ?thesis using Enqueue assms by (simp add: processAction_def)
  next
    case False
    then have "s' = s\<lparr>actionsToProcess := actionsToProcess s @
                     [\<lparr>aid = nextId s, action = act,
                       errorHandler = (case eh of None \<Rightarrow> defaultErrorHandler s | Some f \<Rightarrow> f)\<rparr>],
                   nextId := Suc (nextId s)\<rparr>"
      using Enqueue assms(3) by (simp add: processAction_def)
    then show ?thesis using assms(1) by (auto simp add: ids_ok_def intro: less_SucI)
  qed
next
  case (Tick h)
  then have s': "s' = timer_callback (clearTimeout h s)"
    using assms(3) by (auto split: if_splits)
  have c: "ids_ok (clearTimeout h s)" "started_ok (clearTimeout h s)"
    using assms(1,2) by (simp_all add: clearTimeout_def ids_ok_def started_ok_def)
  show ?thesis
  proof (cases "actionsToProcess s")
    case Nil
    then show ?thesis using s' assms(1)
      by (simp add: timer_callback_def clearTimeout_def initiateBackgroundProcessing_def
          setTimeout_def ids_ok_def)
  next
    case (Cons a rest)
    then have "actionsToProcess (clearTimeout h s) = a # rest" by (simp add: clearTimeout_def)
    from ids_ok_start[OF c this, of FromTimer] show ?thesis
      using s' Cons by (simp add: timer_callback_def clearTimeout_def)
  qed
next
  case (Settle i)
  then obtain a cb p rest where tr: "take_reaction i (reactions s) = Some ((a, cb, p), rest)"
    and s': "s' = settled a cb p (s\<lparr>reactions := rest\<rparr>)"
    using assms(3) by (auto split: option.splits)
  show ?thesis unfolding s' using tr assms(1) by (rule ids_ok_settled)
next
  case (Dispose k)
  show ?thesis
  proof (cases "isDisposed s")
    case True
    then show ?thesis using Dispose assms by (simp add: dispose_def)
  next
    case False
    let ?s2 = "case timeout_handle (s\<lparr>isDisposed := True\<rparr>) of
                 Some h \<Rightarrow> clearTimeout h (s\<lparr>isDisposed := True\<rparr>)
               | None \<Rightarrow> s\<lparr>isDisposed := True\<rparr>"
    have s2: "ids_ok ?s2" "started_ok ?s2"
      using assms(1,2) by (simp_all add: ids_ok_def started_ok_def clearTimeout_def split: option.splits)
    have "ids_ok (if \<not> k then drain ?s2 else ?s2)"
      using s2 ids_ok_drain by auto
    moreover have "s' = poll (if \<not> k then drain ?s2 else ?s2)"
      using Dispose assms(3) False by (simp add: dispose_def Let_def)
    ultimately show ?thesis by (simp add: poll_def ids_ok_def)
  qed
next
  case Poll
  then have "started s' = started s \<and> actionsToProcess s' = actionsToProcess s \<and>
      nextId s' = nextId s \<and> reactions s' = reactions s \<and>
      actionsExecuting s' = actionsExecuting s"
    using assms(3) by (auto simp add: poll_def split: if_splits)
  then show ?thesis using assms(1) ids_ok_fields by blast
qed

lemma alive_execute:
  assumes "timers s = []" "timer_reactions s = 0"
  shows "scheduler_alive (execute FromTimer a s)"
  using execute_outcome[of FromTimer a s] assms
  by (auto simp add: scheduler_alive_def timer_reactions_def now_awaiting_def callback_ran_def
      split: if_splits)

lemma alive_settled_timer:
  assumes "timers s = []" "timer_reactions s = 0"
  shows "scheduler_alive (settled a FromTimer p s)"
  using settled_outcome[of FromTimer a s p] assms
  by (auto simp add: scheduler_alive_def timer_reactions_def now_awaiting_def callback_ran_def
      split: if_splits)

lemma alive_settled_dispose:
  assumes "\<not> isDisposed s \<longrightarrow> timer_reactions s + length (timers s) = 1"
  shows "scheduler_alive (settled a FromDispose p s)"
  using settled_outcome[of FromDispose a s p] assms
  by (auto simp add: scheduler_alive_def timer_reactions_def now_awaiting_def callback_ran_def
      split: if_splits)

lemma scheduler_alive_step:
  assumes "timers_ok s" "scheduler_alive s" "bp_step s ev = Some s'"
  shows "scheduler_alive s'"
proof (cases ev)
  case (Enqueue act eh)
  then show ?thesis using assms
    by (auto simp add: processAction_def scheduler_alive_def timer_reactions_def split: if_splits)
next
  case (Tick h)
  then have h: "h \<in> fst ` set (timers s)" and s': "s' = timer_callback (clearTimeout h s)"
    using assms(3) by (auto split: if_splits)
  from h obtain t ts where tts: "timers s = t # ts" by (cases "timers s") auto
  with assms(1) have emp: "ts = []" "timer_reactions s = 0" "\<not> isDisposed s"
    by (auto simp add: timers_ok_def)
  with h tts obtain d where ts: "timers s = [(h, d)]" by (cases t) auto
  let ?c = "clearTimeout h s"
  have c: "timers ?c = []" "timer_reactions ?c = 0" "\<not> isDisposed ?c"
    using ts emp by (simp_all add: clearTimeout_def timer_reactions_def)
  show ?thesis
  proof (cases "actionsToProcess s")
    case Nil
    then show ?thesis using s' c
      by (simp add: timer_callback_def clearTimeout_def initiateBackgroundProcessing_def
          setTimeout_def scheduler_alive_def timer_reactions_def)
  next
    case (Cons a rest)
    let ?m = "?c\<lparr>actionsToProcess := rest, actionsExecuting := actionsExecuting ?c @ [a]\<rparr>"
    have "scheduler_alive (execute FromTimer a ?m)"
      by (rule alive_execute) (use c in \<open>simp_all add: timer_reactions_def\<close>)
    then show ?thesis using s' Cons by (simp add: timer_callback_def clearTimeout_def)
  qed
next
  case (Settle i)
  then obtain a cb p rest where tr: "take_reaction i (reactions s) = Some ((a, cb, p), rest)"
    and s': "s' = settled a cb p (s\<lparr>reactions := rest\<rparr>)"
    using assms(3) by (auto split: option.splits)
  let ?m = "s\<lparr>reactions := rest\<rparr>"
  from take_reaction_filter[OF tr, of "\<lambda>r. fst (snd r) = FromTimer"]
  have cnt: "timer_reactions s = timer_reactions ?m + (if cb = FromTimer then 1 else 0)"
    by (simp add: timer_reactions_def)
  show ?thesis
  proof (cases cb)
    case FromTimer
    then have "timers ?m = []" "timer_reactions ?m = 0"
      using cnt assms(1) by (auto simp add: timers_ok_def)
    then show ?thesis unfolding s' FromTimer by (rule alive_settled_timer)
  next
    case FromDispose
    then have "\<not> isDisposed ?m \<longrightarrow> timer_reactions ?m + length (timers ?m) = 1"
      using cnt assms(2) by (simp add: scheduler_alive_def)
    then show ?thesis unfolding s' FromDispose by (rule alive_settled_dispose)
  qed
next
  case (Dispose k)
  show ?thesis
  proof (cases "isDisposed s")
    case True
    then show ?thesis using Dispose assms by (simp add: dispose_def)
  next
    case False
    let ?s2 = "case timeout_handle (s\<lparr>isDisposed := True\<rparr>) of
                 Some h \<Rightarrow> clearTimeout h (s\<lparr>isDisposed := True\<rparr>)
               | None \<Rightarrow> s\<lparr>isDisposed := True\<rparr>"
    let ?s3 = "if \<not> k then drain ?s2 else ?s2"
    have "isDisposed ?s2" by (simp add: clearTimeout_def split: option.splits)
    then have "isDisposed ?s3" by (simp add: drain_frame)
    moreover have "s' = poll ?s3"
      using Dispose assms(3) False by (simp add: dispose_def Let_def)
    ultimately show ?thesis by (simp add: poll_def scheduler_alive_def)
  qed
next
  case Poll
  then show ?thesis using assms
    by (auto simp add: poll_def scheduler_alive_def timer_reactions_def split: if_splits)
qed

lemma remove_action_distinct:
  "distinct (map aid xs) \<Longrightarrow> distinct (map aid (remove_action i xs))"
proof (induction xs)
  case Nil
  then show ?case by simp
next
  case (Cons x xs)
  then show ?case using remove_action_subset[of i xs] by auto
qed

lemma remove_action_gone:
  "distinct (map aid xs) \<Longrightarrow> i \<notin> aid ` set (remove_action i xs)"
proof (induction xs)
  case Nil
  then show ?case by simp
next
  case (Cons x xs)
  then show ?case by auto
qed

lemma executing_ok_execute:
  assumes "distinct (map aid (actionsExecuting s))"
    and "\<forall>x \<in> set (actionsExecuting s). aid x = aid a \<or> (\<exists>r \<in> set (reactions s). aid (fst r) = aid x)"
  shows "executing_ok (execute cb a s)"
  using execute_outcome[of cb a s]
proof
  assume "now_awaiting cb a s (execute cb a s)"
  then obtain p where r: "reactions (execute cb a s) = reactions s @ [(a, cb, p)]"
    "actionsExecuting (execute cb a s) = actionsExecuting s"
    by (auto simp add: now_awaiting_def)
  have "\<forall>x \<in> set (actionsExecuting s). \<exists>r \<in> set (reactions s @ [(a, cb, p)]). aid (fst r) = aid x"
  proof
    fix x assume "x \<in> set (actionsExecuting s)"
    with assms(2) have "aid x = aid a \<or> (\<exists>r \<in> set (reactions s). aid (fst r) = aid x)" by blast
    then show "\<exists>r \<in> set (reactions s @ [(a, cb, p)]). aid (fst r) = aid x" by auto
  qed
  then show ?thesis using assms(1) r by (simp add: executing_ok_def)
next
  assume "callback_ran cb a s (execute cb a s)"
  then have r: "reactions (execute cb a s) = reactions s"
    "actionsExecuting (execute cb a s) = remove_action (aid a) (actionsExecuting s)"
    by (simp_all add: callback_ran_def)
  have "\<forall>x \<in> set (remove_action (aid a) (actionsExecuting s)). \<exists>r \<in> set (reactions s). aid (fst r) = aid x"
  proof
    fix x assume x: "x \<in> set (remove_action (aid a) (actionsExecuting s))"
    then have "aid x \<noteq> aid a" using remove_action_gone[OF assms(1), of "aid a"] by (metis imageI)
    moreover have "x \<in> set (actionsExecuting s)"
      using x remove_action_subset[of "aid a" "actionsExecuting s"] by blast
    ultimately show "\<exists>r \<in> set (reactions s). aid (fst r) = aid x" using assms(2) by blast
  qed
  then show ?thesis using remove_action_distinct[OF assms(1)] r by (simp add: executing_ok_def)
qed

lemma executing_ok_start:
  assumes "executing_ok s" "ids_ok s" "started_ok s" "actionsToProcess s = a # rest"
  shows "executing_ok (execute cb a
           (s\<lparr>actionsToProcess := rest, actionsExecuting := actionsExecuting s @ [a]\<rparr>))"
proof (rule executing_ok_execute)
  let ?m = "s\<lparr>actionsToProcess := rest, actionsExecuting := actionsExecuting s @ [a]\<rparr>"
  have "aid a \<notin> aid ` set (started s)"
    using assms(2,4) by (auto simp add: ids_ok_def)
  then have notex: "aid a \<notin> aid ` set (actionsExecuting s)"
    using assms(3) by (auto simp add: started_ok_def)
  then show "distinct (map aid (actionsExecuting ?m))"
    using assms(1) by (simp add: executing_ok_def)
  show "\<forall>x \<in> set (actionsExecuting ?m). aid x = aid a \<or> (\<exists>r \<in> set (reactions ?m). aid (fst r) = aid x)"
    using assms(1) by (simp add: executing_ok_def)
qed

lemma executing_ok_drain:
  "executing_ok s \<Longrightarrow> ids_ok s \<Longrightarrow> started_ok s \<Longrightarrow> executing_ok (drain s)"
proof (induction s rule: drain.induct)
  case (1 s)
  show ?case
  proof (cases "actionsToProcess s")
    case Nil
    then show ?thesis using 1 by (simp add: drain_Nil)
  next
    case (Cons a rest)
    then show ?thesis
      using 1(1)[OF Cons executing_ok_start[OF 1(2,3,4) Cons] ids_ok_start[OF 1(3,4) Cons]
          started_ok_start[OF 1(4) Cons]]
      by (simp add: drain_Cons[OF Cons])
  qed
qed

lemma executing_ok_settled:
  assumes "take_reaction i (reactions s) = Some ((a, cb, p), rest)" "executing_ok s" "ids_ok s"
  shows "executing_ok (settled a cb p (s\<lparr>reactions := rest\<rparr>))"
proof -
  let ?m = "s\<lparr>reactions := rest\<rparr>"
  let ?s' = "settled a cb p ?m"
  from take_reaction_split[OF assms(1)] obtain xs ys where
    sp: "reactions s = xs @ (a, cb, p) # ys" "rest = xs @ ys" by auto
  have d1: "distinct (map aid (actionsExecuting s))"
    using assms(2) by (simp add: executing_ok_def)
  have d2: "\<forall>x \<in> set (actionsExecuting s). aid x = aid a \<or> (\<exists>r \<in> set rest. aid (fst r) = aid x)"
  proof
    fix x assume "x \<in> set (actionsExecuting s)"
    then obtain r where "r \<in> set (reactions s)" "aid (fst r) = aid x"
      using assms(2) by (auto simp add: executing_ok_def)
    then show "aid x = aid a \<or> (\<exists>r \<in> set rest. aid (fst r) = aid x)"
      using sp by auto
  qed
  from settled_outcome[of cb a ?m p] show ?thesis
  proof
    assume "now_awaiting cb a ?m ?s'"
    then obtain p' where r: "reactions ?s' = rest @ [(a, cb, p')]"
      "actionsExecuting ?s' = actionsExecuting s"
      by (auto simp add: now_awaiting_def)
    have "\<forall>x \<in> set (actionsExecuting s). \<exists>r \<in> set (rest @ [(a, cb, p')]). aid (fst r) = aid x"
    proof
      fix x assume "x \<in> set (actionsExecuting s)"
      with d2 have "aid x = aid a \<or> (\<exists>r \<in> set rest. aid (fst r) = aid x)" by blast
      then show "\<exists>r \<in> set (rest @ [(a, cb, p')]). aid (fst r) = aid x" by auto
    qed
    then show ?thesis using d1 r by (simp add: executing_ok_def)
  next
    assume "callback_ran cb a ?m ?s'"
    then have r: "reactions ?s' = rest"
      "actionsExecuting ?s' = remove_action (aid a) (actionsExecuting s)"
      by (simp_all add: callback_ran_def)
    have "\<forall>x \<in> set (remove_action (aid a) (actionsExecuting s)). \<exists>r \<in> set rest. aid (fst r) = aid x"
    proof
      fix x assume x: "x \<in> set (remove_action (aid a) (actionsExecuting s))"
      then have "aid x \<noteq> aid a" using remove_action_gone[OF d1, of "aid a"] by (metis imageI)
      moreover have "x \<in> set (actionsExecuting s)"
        using x remove_action_subset[of "aid a" "actionsExecuting s"] by blast
      ultimately show "\<exists>r \<in> set rest. aid (fst r) = aid x" using d2 by blast
    qed
    then show ?thesis using remove_action_distinct[OF d1] r by (simp add: executing_ok_def)
  qed
qed

lemma executing_ok_step:
  assumes "executing_ok s" "ids_ok s" "started_ok s" "bp_step s ev = Some s'"
  shows "executing_ok s'"
proof (cases ev)
  case (Enqueue act eh)
  then have "s' = s \<or> (reactions s' = reactions s \<and> actionsExecuting s' = actionsExecuting s)"
    using assms(4) by (auto simp add: processAction_def split: if_splits)
  then show ?thesis using assms(1) by (auto simp add: executing_ok_def)
next
  case (Tick h)
  then have s': "s' = timer_callback (clearTimeout h s)"
    using assms(4) by (auto split: if_splits)
  have c: "executing_ok (clearTimeout h s)" "ids_ok (clearTimeout h s)" "started_ok (clearTimeout h s)"
    using assms(1,2,3) by (simp_all add: clearTimeout_def executing_ok_def ids_ok_def started_ok_def)
  show ?thesis
  proof (cases "actionsToProcess s")
    case Nil
    then show ?thesis using s' assms(1)
      by (simp add: timer_callback_def clearTimeout_def initiateBackgroundProcessing_def
          setTimeout_def executing_ok_def)
  next
    case (Cons a rest)
    then have "actionsToProcess (clearTimeout h s) = a # rest" by (simp add: clearTimeout_def)
    from executing_ok_start[OF c this, of FromTimer] show ?thesis
      using s' Cons by (simp add: timer_callback_def clearTimeout_def)
  qed
next
  case (Settle i)
  then obtain a cb p rest where tr: "take_reaction i (reactions s) = Some ((a, cb, p), rest)"
    and s': "s' = settled a cb p (s\<lparr>reactions := rest\<rparr>)"
    using assms(4) by (auto split: option.splits)
  show ?thesis unfolding s' using tr assms(1,2) by (rule executing_ok_settled)
next
  case (Dispose k)
  show ?thesis
  proof (cases "isDisposed s")
    case True
    then show ?thesis using Dispose assms by (simp add: dispose_def)
  next
    case False
    let ?s2 = "case timeout_handle (s\<lparr>isDisposed := True\<rparr>) of
                 Some h \<Rightarrow> clearTimeout h (s\<lparr>isDisposed := True\<rparr>)
               | None \<Rightarrow> s\<lparr>isDisposed := True\<rparr>"
    have s2: "executing_ok ?s2" "ids_ok ?s2" "started_ok ?s2"
      using assms(1,2,3)
      by (simp_all add: executing_ok_def ids_ok_def started_ok_def clearTimeout_def split: option.splits)
    have "executing_ok (if \<not> k then drain ?s2 else ?s2)"
      using s2 executing_ok_drain by auto
    moreover have "s' = poll (if \<not> k then drain ?s2 else ?s2)"
      using Dispose assms(4) False by (simp add: dispose_def Let_def)
    ultimately show ?thesis by (simp add: poll_def executing_ok_def)
  qed
next
  case Poll
  then have "reactions s' = reactions s \<and> actionsExecuting s' = actionsExecuting s"
    using assms(4) by (auto simp add: poll_def split: if_splits)
  then show ?thesis using assms(1) by (simp add: executing_ok_def)
qed

lemma bp_inv_step:
  assumes "bp_inv s" "bp_step s ev = Some s'"
  shows "bp_inv s'"
proof -
  from assms(1) have a: "timers_ok s" "scheduler_alive s" "disposal_ok s" "started_ok s"
    "ids_ok s" "executing_ok s"
    by (simp_all add: bp_inv_def)
  show ?thesis
    unfolding bp_inv_def
    using timers_ok_step[OF a(1) assms(2)] scheduler_alive_step[OF a(1,2) assms(2)]
      disposal_ok_step[OF a(1,3) assms(2)] started_ok_step[OF a(4) assms(2)]
      ids_ok_step[OF a(5,4) assms(2)] executing_ok_step[OF a(6,5,4) assms(2)]
    by simp
qed

lemma bp_inv_run: "bp_inv s \<Longrightarrow> bp_run s evs = Some s' \<Longrightarrow> bp_inv s'"
  by (induction evs arbitrary: s) (auto split: option.splits dest: bp_inv_step)

lemma bp_inv_new: "new_processor h ms b = Inr p \<Longrightarrow> bp_inv p"
  by (auto simp add: new_processor_def initiateBackgroundProcessing_def setTimeout_def
      bp_inv_def timers_ok_def timer_reactions_def disposal_ok_def started_ok_def ids_ok_def
      scheduler_alive_def executing_ok_def split: if_splits)

lemma bp_run_append:
  "bp_run s (xs @ ys) = (case bp_run s xs of None \<Rightarrow> None | Some s' \<Rightarrow> bp_run s' ys)"
  by (induction xs arbitrary: s) (auto split: option.splits)

lemma disposed_step:
  assumes "timers_ok s" "isDisposed s" "bp_step s ev = Some s'"
  shows "isDisposed s' \<and> started s' = started s \<and> actionsToProcess s' = actionsToProcess s"
proof (cases ev)
  case (Tick h)
  then show ?thesis using assms by (auto simp add: timers_ok_def split: if_splits)
qed (use assms in \<open>auto simp add: processAction_def dispose_def poll_def split: option.splits if_splits\<close>)

lemma disposed_run:
  "bp_inv s \<Longrightarrow> isDisposed s \<Longrightarrow> bp_run s evs = Some s' \<Longrightarrow>
   isDisposed s' \<and> started s' = started s \<and> actionsToProcess s' = actionsToProcess s"
proof (induction evs arbitrary: s)
  case Nil
  then show ?case by simp
next
  case (Cons ev evs)
  then obtain s1 where s1: "bp_step s ev = Some s1" "bp_run s1 evs = Some s'"
    by (auto split: option.splits)
  have t: "timers_ok s" using Cons.prems(1) by (simp add: bp_inv_def)
  from disposed_step[OF t Cons.prems(2) s1(1)] bp_inv_step[OF Cons.prems(1) s1(1)]
    Cons.IH[OF _ _ s1(2)]
  show ?case by simp
qed

lemma dispose_fields:
  assumes "\<not> isDisposed s"
  shows "isDisposed (dispose k s)"
    and "started (dispose k s) = (if k then started s else started s @ actionsToProcess s)"
    and "actionsToProcess (dispose k s) = (if k then actionsToProcess s else [])"
  using assms
  by (simp_all add: dispose_def Let_def poll_def drain_frame clearTimeout_def split: option.splits)

lemma reachable_inv:
  "new_processor h ms b = Inr p \<Longrightarrow> bp_run p evs = Some s \<Longrightarrow> bp_inv s"
  using bp_inv_new bp_inv_run by blast

lemma enqueue_run:
  "\<not> isDisposed s \<Longrightarrow>
   bp_run s (map (\<lambda>(act, eh). Enqueue act eh) xs @ evs) =
   bp_run (s\<lparr>actionsToProcess := actionsToProcess s @ new_actions (defaultErrorHandler s) (nextId s) xs,
              nextId := nextId s + length xs\<rparr>) evs"
proof (induction xs arbitrary: s)
  case Nil
  then show ?case by (simp add: new_actions_def)
next
  case (Cons x xs)
  obtain act eh where x: "x = (act, eh)" by (cases x)
  let ?s1 = "s\<lparr>actionsToProcess := actionsToProcess s @
                     [\<lparr>aid = nextId s, action = act,
                       errorHandler = (case eh of None \<Rightarrow> defaultErrorHandler s | Some f \<Rightarrow> f)\<rparr>],
                   nextId := Suc (nextId s)\<rparr>"
  have "bp_step s (Enqueue act eh) = Some ?s1"
    using Cons.prems by (simp add: processAction_def)
  moreover have "\<not> isDisposed ?s1" using Cons.prems by simp
  ultimately show ?case
    using Cons.IH[of ?s1] x by (simp add: new_actions_def)
qed

lemma take_reaction_last:
  "aid a \<notin> (\<lambda>r. aid (fst r)) ` set rs \<Longrightarrow>
   take_reaction (aid a) (rs @ [(a, cb, p)]) = Some ((a, cb, p), rs)"
  by (induction rs) auto

lemma take_reaction_exists:
  "\<exists>r \<in> set rs. aid (fst r) = i \<Longrightarrow> \<exists>r rest. take_reaction i rs = Some (r, rest)"
proof (induction rs)
  case Nil
  then show ?case by simp
next
  case (Cons x xs)
  show ?case
  proof (cases "aid (fst x) = i")
    case True
    then have "take_reaction i (x # xs) = Some (x, xs)" by simp
    then show ?thesis by blast
  next
    case False
    with Cons.prems have "\<exists>r \<in> set xs. aid (fst r) = i" by auto
    from Cons.IH[OF this] obtain r rest where "take_reaction i xs = Some (r, rest)" by blast
    then have "take_reaction i (x # xs) = Some (r, x # rest)" using False by simp
    then show ?thesis by blast
  qed
qed

lemma callback_fields:
  "actionsExecuting (postExecuteCallback cb a s) = remove_action (aid a) (actionsExecuting s)"
  "completed (postExecuteCallback cb a s) = completed s @ [aid a]"
  "actionsToProcess (postExecuteCallback cb a s) = actionsToProcess s"
  by (cases cb; simp add: postExecuteCallback_def initiateBackgroundProcessing_def setTimeout_def Let_def)+

lemma handler_promise_settles:
  assumes "distinct (map aid (actionsExecuting s))"
  shows "aid a \<notin> aid ` set (actionsExecuting (settled a cb (HandlerPromise r) s)) \<and>
         aid a \<in> set (completed (settled a cb (HandlerPromise r) s)) \<and>
         actionsToProcess (settled a cb (HandlerPromise r) s) = actionsToProcess s"
  using remove_action_gone[OF assms, of "aid a"]
  by (cases r) (simp_all add: settled_def callback_fields)

lemma executing_action_completes:
  assumes "bp_inv s" and "x \<in> set (actionsExecuting s)"
  shows "\<exists>n s'. n \<le> 2 \<and> bp_run s (replicate n (Settle (aid x))) = Some s' \<and>
           aid x \<notin> aid ` set (actionsExecuting s') \<and> aid x \<in> set (completed s') \<and>
           actionsToProcess s' = actionsToProcess s"
proof -
  have ex: "distinct (map aid (actionsExecuting s))"
    and re: "\<exists>r \<in> set (reactions s). aid (fst r) = aid x"
    using assms by (auto simp add: bp_inv_def executing_ok_def)
  have dr: "distinct (map (\<lambda>r. aid (fst r)) (reactions s))"
    using assms(1) by (simp add: bp_inv_def ids_ok_def)
  from take_reaction_exists[OF re] obtain r rest where
    "take_reaction (aid x) (reactions s) = Some (r, rest)" by blast
  then obtain a cb p where tr: "take_reaction (aid x) (reactions s) = Some ((a, cb, p), rest)"
    by (cases r) auto
  from take_reaction_split[OF tr] obtain xs ys where
    sp: "reactions s = xs @ (a, cb, p) # ys" "rest = xs @ ys" "aid a = aid x" by auto
  have nrest: "aid a \<notin> (\<lambda>r. aid (fst r)) ` set rest"
    using dr sp by auto
  let ?m = "s\<lparr>reactions := rest\<rparr>"
  have step1: "bp_step s (Settle (aid x)) = Some (settled a cb p ?m)"
    using tr by simp
  have one: "\<exists>n s'. n \<le> 2 \<and> bp_run s (replicate n (Settle (aid x))) = Some s' \<and>
           aid x \<notin> aid ` set (actionsExecuting s') \<and> aid x \<in> set (completed s') \<and>
           actionsToProcess s' = actionsToProcess s"
    if "settled a cb p ?m = postExecuteCallback cb a u" "actionsExecuting u = actionsExecuting s"
      "actionsToProcess u = actionsToProcess s" for u
  proof -
    have "bp_run s (replicate 1 (Settle (aid x))) = Some (postExecuteCallback cb a u)"
      using step1 that(1) by simp
    moreover have "aid x \<notin> aid ` set (actionsExecuting (postExecuteCallback cb a u))"
      using remove_action_gone[OF ex, of "aid a"] that(2) sp(3) by (simp add: callback_fields)
    moreover have "aid x \<in> set (completed (postExecuteCallback cb a u))"
      using sp(3) by (simp add: callback_fields)
    moreover have "actionsToProcess (postExecuteCallback cb a u) = actionsToProcess s"
      using that(3) by (simp add: callback_fields)
    ultimately show ?thesis by (metis one_le_numeral)
  qed
  have two: "\<exists>n s'. n \<le> 2 \<and> bp_run s (replicate n (Settle (aid x))) = Some s' \<and>
           aid x \<notin> aid ` set (actionsExecuting s') \<and> aid x \<in> set (completed s') \<and>
           actionsToProcess s' = actionsToProcess s"
    if "settled a cb p ?m = await a cb (HandlerPromise r) u" "actionsExecuting u = actionsExecuting s"
      "actionsToProcess u = actionsToProcess s" "reactions u = rest" for u r
  proof -
    let ?s1 = "await a cb (HandlerPromise r) u"
    have tk: "take_reaction (aid x) (reactions ?s1) = Some ((a, cb, HandlerPromise r), rest)"
      using take_reaction_last[OF nrest, of cb "HandlerPromise r"] that(4) sp(3)
      by (simp add: await_def)
    let ?u = "?s1\<lparr>reactions := rest\<rparr>"
    let ?s2 = "settled a cb (HandlerPromise r) ?u"
    have step2: "bp_step ?s1 (Settle (aid x)) = Some ?s2" using tk by simp
    have "bp_run s (replicate 2 (Settle (aid x))) = Some ?s2"
      using step1 that(1) step2 by (simp add: numeral_2_eq_2)
    moreover have "distinct (map aid (actionsExecuting ?u))"
      using ex that(2) by (simp add: await_def)
    from handler_promise_settles[OF this, of a cb r]
    have "aid x \<notin> aid ` set (actionsExecuting ?s2) \<and> aid x \<in> set (completed ?s2) \<and>
          actionsToProcess ?s2 = actionsToProcess s"
      using sp(3) that(3) by (simp add: await_def)
    ultimately show ?thesis by (metis order_refl)
  qed
  show ?thesis
  proof (cases p)
    case (ActionPromise r)
    show ?thesis
    proof (cases r)
      case None
      show ?thesis
        by (rule one[of ?m]) (simp_all add: settled_def ActionPromise None)
    next
      case (Some e)
      let ?h = "?m\<lparr>handled := handled ?m @ [(aid a, e)]\<rparr>"
      show ?thesis
      proof (cases "errorHandler a e")
        case (Throws e2)
        show ?thesis
          by (rule one[of "?h\<lparr>diagnostics := diagnostics ?h @ [e2]\<rparr>"])
             (simp_all add: settled_def call_errorHandler_def Let_def ActionPromise Some Throws)
      next
        case Resolves
        show ?thesis
          by (rule two[of None ?h])
             (simp_all add: settled_def call_errorHandler_def Let_def ActionPromise Some Resolves)
      next
        case (Rejects e2)
        show ?thesis
          by (rule two[of "Some e2" ?h])
             (simp_all add: settled_def call_errorHandler_def Let_def ActionPromise Some Rejects)
      qed
    qed
  next
    case (HandlerPromise r)
    show ?thesis
    proof (cases r)
      case None
      show ?thesis
        by (rule one[of ?m]) (simp_all add: settled_def HandlerPromise None)
    next
      case (Some e2)
      show ?thesis
        by (rule one[of "?m\<lparr>diagnostics := diagnostics ?m @ [e2]\<rparr>"])
           (simp_all add: settled_def HandlerPromise Some)
    qed
  qed
qed

lemma timed_action_runs_its_course:
  assumes "bp_inv s" and "actionsToProcess s = a # rest" and "timers s = [(t, d)]"
  shows "bp_run s (Tick t # replicate (promises_awaited a) (Settle (aid a))) =
         Some (s\<lparr>actionsToProcess := rest,
                timeout_handle := Some (nextHandle s),
                timers := [(nextHandle s,
                            if breakOnlyWhenNoWork s \<and> rest \<noteq> [] then 0
                            else breakIntervalMilliseconds s)],
                nextHandle := Suc (nextHandle s),
                started := started s @ [a],
                completed := completed s @ [aid a],
                handled := handled s @ (case action_error a of None \<Rightarrow> [] | Some e \<Rightarrow> [(aid a, e)]),
                diagnostics := diagnostics s @ (case handler_error a of None \<Rightarrow> [] | Some e \<Rightarrow> [e])\<rparr>)"
proof -
  note inv = assms(1)
  have nd: "\<not> isDisposed s" using inv assms(3) by (auto simp add: bp_inv_def timers_ok_def)
  have "aid a \<notin> aid ` set (started s)"
    using inv assms(2) by (auto simp add: bp_inv_def ids_ok_def)
  then have nex: "aid a \<notin> aid ` set (actionsExecuting s)"
    using inv by (auto simp add: bp_inv_def started_ok_def)
  then have nre: "aid a \<notin> (\<lambda>r. aid (fst r)) ` set (reactions s)"
    using inv by (auto simp add: bp_inv_def ids_ok_def)
  note rm = remove_action_absent[OF nex refl]
  note tk = take_reaction_last[OF nre]
  show ?thesis
  proof (cases "action a")
    case (Throws e)
    then show ?thesis
      using assms(2,3) nd rm tk
      by (cases "errorHandler a e")
         (simp_all add: promises_awaited_def action_error_def handler_error_def
           timer_callback_def clearTimeout_def exec_defs)
  next
    case Resolves
    then show ?thesis
      using assms(2,3) nd rm tk
      by (simp add: promises_awaited_def action_error_def handler_error_def
           timer_callback_def clearTimeout_def exec_defs)
  next
    case (Rejects e)
    then show ?thesis
      using assms(2,3) nd rm tk
      by (cases "errorHandler a e")
         (simp_all add: promises_awaited_def action_error_def handler_error_def
           timer_callback_def clearTimeout_def exec_defs)
  qed
qed

lemma scheduler_never_stops:
  assumes "bp_inv s" and "\<not> isDisposed s"
  shows "timers s \<noteq> [] \<or> (\<exists>r \<in> set (reactions s). fst (snd r) = FromTimer)"
proof (cases "timers s")
  case Nil
  then have "length (filter (\<lambda>r. fst (snd r) = FromTimer) (reactions s)) = 1"
    using assms by (simp add: bp_inv_def scheduler_alive_def timer_reactions_def)
  then have "filter (\<lambda>r. fst (snd r) = FromTimer) (reactions s) \<noteq> []" by auto
  then show ?thesis by (auto simp add: filter_empty_conv)
next
  case (Cons t ts)
  then show ?thesis by simp
qed

lemmas bp_defs = new_processor_def processAction_def dispose_def poll_def timer_callback_def
  clearTimeout_def exec_defs drain.simps queueLength_def new_actions_def
  action_error_def handler_error_def promises_awaited_def

lemma new_idle: "new_processor (\<lambda>e. Resolves) 0 True = Inr idle_processor"
  by (simp add: bp_defs idle_processor_def)

lemma run_one_queued: "bp_run idle_processor [Enqueue Resolves None] = Some one_queued"
  by (simp add: bp_defs idle_processor_def quiet_action_def one_queued_def)

subsection \<open>Start order, failure isolation, disposal\<close>

text \<open>
  \<^bold>\<open>C4\<close>. Let \<open>K\<close> actions be enqueued, one after the other, on a processor that is
  not disposed, and let any events follow (timers, promises settling after any time,
  further calls, disposal). The actions started from then on, in the order of their
  start, follow the queue: one list is a prefix of the other, where the queue is
  what was pending before, then the \<open>K\<close> actions in the order of their enqueueing.
  So when nothing was pending, the first \<open>K\<close> actions to start (all that have
  started, while they are fewer) are the enqueued ones in the order they were
  enqueued, however long each of them takes.
\<close>

theorem fifo_start_order:
  assumes "\<not> isDisposed s0"
    and "bp_run s0 (map (\<lambda>(act, eh). Enqueue act eh) xs @ evs) = Some s"
  shows "let queue = actionsToProcess s0 @ new_actions (defaultErrorHandler s0) (nextId s0) xs;
             later = drop (length (started s0)) (started s)
         in started s = started s0 @ later \<and>
            take (length queue) later = take (length later) queue"
proof -
  define queue where "queue = actionsToProcess s0 @ new_actions (defaultErrorHandler s0) (nextId s0) xs"
  define later where "later = drop (length (started s0)) (started s)"
  let ?s1 = "s0\<lparr>actionsToProcess := actionsToProcess s0 @ new_actions (defaultErrorHandler s0) (nextId s0) xs,
              nextId := nextId s0 + length xs\<rparr>"
  have r: "bp_run ?s1 evs = Some s" using enqueue_run[OF assms(1), of xs evs] assms(2) by simp
  from fifo_run[OF r] obtain new new2 where
    "started s @ actionsToProcess s = started ?s1 @ actionsToProcess ?s1 @ new"
    "started s = started ?s1 @ new2" by blast
  then have eq: "started s @ actionsToProcess s = started s0 @ queue @ new"
    and st: "started s = started s0 @ new2"
    by (simp_all add: queue_def)
  from st have l: "later = new2" "started s = started s0 @ later" by (simp_all add: later_def)
  from eq l(2) have "later @ actionsToProcess s = queue @ new" by simp
  then have "later = take (length later) (queue @ new)"
    by (metis append_eq_conv_conj)
  then have "take (length queue) later = take (length queue) (take (length later) (queue @ new))"
    by simp
  also have "\<dots> = take (length later) (take (length queue) (queue @ new))"
    by (simp only: take_take min.commute)
  also have "\<dots> = take (length later) queue" by simp
  finally have "take (length queue) later = take (length later) queue" .
  with l(2) show ?thesis unfolding queue_def later_def by (simp add: Let_def)
qed

text \<open>
  Two actions are enqueued; the first fulfils, the second throws. They start in
  that order.
\<close>

theorem fifo_start_order_witness:
  "\<not> isDisposed idle_processor \<and>
   bp_run idle_processor
     (map (\<lambda>(act, eh). Enqueue act eh) [(Resolves, None), (Throws 5, None)] @
      [Tick 0, Settle 0, Tick 1]) =
     Some (idle_processor\<lparr>actionsExecuting := [throwing_action], timeout_handle := Some 1,
             timers := [], nextHandle := 2, nextId := 2,
             reactions := [(throwing_action, FromTimer, HandlerPromise None)],
             started := [quiet_action, throwing_action], completed := [0],
             handled := [(1, 5)]\<rparr>) \<and>
   actionsToProcess idle_processor @
     new_actions (defaultErrorHandler idle_processor) (nextId idle_processor)
       [(Resolves, None), (Throws 5, None)] =
     [quiet_action, throwing_action] \<and>
   drop (length (started idle_processor)) [quiet_action, throwing_action] =
     [quiet_action, throwing_action]"
proof -
  let ?s = "idle_processor\<lparr>actionsExecuting := [throwing_action], timeout_handle := Some 1,
             timers := [], nextHandle := 2, nextId := 2,
             reactions := [(throwing_action, FromTimer, HandlerPromise None)],
             started := [quiet_action, throwing_action], completed := [0],
             handled := [(1, 5)]\<rparr>"
  have nd: "\<not> isDisposed idle_processor" by (simp add: idle_processor_def)
  have r: "bp_run idle_processor
     (map (\<lambda>(act, eh). Enqueue act eh) [(Resolves, None), (Throws 5, None)] @
      [Tick 0, Settle 0, Tick 1]) = Some ?s"
    by (simp add: bp_defs idle_processor_def quiet_action_def throwing_action_def)
  have n: "actionsToProcess idle_processor @
     new_actions (defaultErrorHandler idle_processor) (nextId idle_processor)
       [(Resolves, None), (Throws 5, None)] = [quiet_action, throwing_action]"
    by (simp add: new_actions_def quiet_action_def throwing_action_def idle_processor_def)
  show ?thesis
    using fifo_start_order[OF nd r] r n nd by (simp add: idle_processor_def)
qed

text \<open>
  \<^bold>\<open>C5\<close>. In every state reachable from a new processor:
  \<^item> when the timer is armed, let the head of the queue be any action, one that
    throws, one whose promise rejects or one that succeeds, with an error handler
    that throws, rejects or succeeds. The timer fires and the promises awaited for
    the action settle. Then the error of the action, if any, has been passed to the
    handler of that record, the error of the handler, if any, has been written to
    the diagnostic sink, and nothing else has changed but this: the action is logged
    as started and completed, it is not in the executing list, the queue holds the
    actions that were behind it, and the next timer is armed;
  \<^item> every executing action, however it was started and whatever it and its
    handler do, has left the executing list and completed once the promises awaited
    for it (at most two) have settled, and the queue is as before;
  \<^item> while the processor is not disposed, the timer is armed or an action started
    by the timer is executing, whose completion arms it.
\<close>

theorem failures_do_not_stop_the_queue:
  assumes "new_processor h ms b = Inr p" and "bp_run p evs = Some s"
  shows "(actionsToProcess s = a # rest \<and> timers s = [(t, d)] \<longrightarrow>
            bp_run s (Tick t # replicate (promises_awaited a) (Settle (aid a))) =
            Some (s\<lparr>actionsToProcess := rest,
                   timeout_handle := Some (nextHandle s),
                   timers := [(nextHandle s,
                               if breakOnlyWhenNoWork s \<and> rest \<noteq> [] then 0
                               else breakIntervalMilliseconds s)],
                   nextHandle := Suc (nextHandle s),
                   started := started s @ [a],
                   completed := completed s @ [aid a],
                   handled := handled s @
                     (case action_error a of None \<Rightarrow> [] | Some e \<Rightarrow> [(aid a, e)]),
                   diagnostics := diagnostics s @
                     (case handler_error a of None \<Rightarrow> [] | Some e \<Rightarrow> [e])\<rparr>)) \<and>
         (\<forall>x \<in> set (actionsExecuting s).
            \<exists>n s'. n \<le> 2 \<and> bp_run s (replicate n (Settle (aid x))) = Some s' \<and>
              aid x \<notin> aid ` set (actionsExecuting s') \<and> aid x \<in> set (completed s') \<and>
              actionsToProcess s' = actionsToProcess s) \<and>
         (\<not> isDisposed s \<longrightarrow>
            timers s \<noteq> [] \<or> (\<exists>r \<in> set (reactions s). fst (snd r) = FromTimer))"
proof -
  have inv: "bp_inv s" using assms by (rule reachable_inv)
  show ?thesis
    using timed_action_runs_its_course[OF inv] executing_action_completes[OF inv]
      scheduler_never_stops[OF inv]
    by blast
qed

text \<open>
  An action that rejects with 5 and whose handler rejects with 15, from the queue and
  from the moment it is executing.
\<close>

theorem failures_do_not_stop_the_queue_witness:
  "new_processor (\<lambda>e. Resolves) 0 True = Inr idle_processor \<and>
   bp_run idle_processor [Enqueue (Rejects 5) (Some (\<lambda>e. Rejects (e + 10)))] = Some one_failing \<and>
   actionsToProcess one_failing = [failing_action] \<and> timers one_failing = [(0, 0)] \<and>
   \<not> isDisposed one_failing \<and>
   bp_run one_failing [Tick 0, Settle 0, Settle 0] =
     Some (one_failing\<lparr>actionsToProcess := [], timeout_handle := Some 1, timers := [(1, 0)],
             nextHandle := 2, started := [failing_action], completed := [0],
             handled := [(0, 5)], diagnostics := [15]\<rparr>) \<and>
   bp_run idle_processor [Enqueue (Rejects 5) (Some (\<lambda>e. Rejects (e + 10))), Tick 0] =
     Some one_rejected \<and>
   failing_action \<in> set (actionsExecuting one_rejected) \<and>
   bp_run one_rejected [Settle 0, Settle 0] =
     Some (one_failing\<lparr>actionsToProcess := [], timeout_handle := Some 1, timers := [(1, 0)],
             nextHandle := 2, started := [failing_action], completed := [0],
             handled := [(0, 5)], diagnostics := [15]\<rparr>)"
proof -
  have r: "bp_run idle_processor [Enqueue (Rejects 5) (Some (\<lambda>e. Rejects (e + 10)))] = Some one_failing"
    by (simp add: bp_defs idle_processor_def failing_action_def one_failing_def)
  have r2: "bp_run idle_processor [Enqueue (Rejects 5) (Some (\<lambda>e. Rejects (e + 10))), Tick 0] =
     Some one_rejected"
    by (simp add: bp_defs idle_processor_def failing_action_def one_failing_def one_rejected_def)
  have a: "actionsToProcess one_failing = failing_action # [] \<and> timers one_failing = [(0, 0)]"
    "\<not> isDisposed one_failing"
    by (simp_all add: one_failing_def idle_processor_def)
  have x: "failing_action \<in> set (actionsExecuting one_rejected)"
    by (simp add: one_rejected_def)
  have r3: "bp_run one_rejected [Settle 0, Settle 0] =
     Some (one_failing\<lparr>actionsToProcess := [], timeout_handle := Some 1, timers := [(1, 0)],
             nextHandle := 2, started := [failing_action], completed := [0],
             handled := [(0, 5)], diagnostics := [15]\<rparr>)"
    by (simp add: bp_defs idle_processor_def failing_action_def one_failing_def one_rejected_def)
  note t1 = failures_do_not_stop_the_queue[OF new_idle r, of failing_action "[]" 0 0]
  note t2 = failures_do_not_stop_the_queue[OF new_idle r2, of failing_action "[]" 0 0]
  from t1 a have "bp_run one_failing
      (Tick 0 # replicate (promises_awaited failing_action) (Settle (aid failing_action))) =
      Some (one_failing\<lparr>actionsToProcess := [],
              timeout_handle := Some (nextHandle one_failing),
              timers := [(nextHandle one_failing,
                          if breakOnlyWhenNoWork one_failing \<and> [] \<noteq> ([] :: nat Action list) then 0
                          else breakIntervalMilliseconds one_failing)],
              nextHandle := Suc (nextHandle one_failing),
              started := started one_failing @ [failing_action],
              completed := completed one_failing @ [aid failing_action],
              handled := handled one_failing @
                (case action_error failing_action of None \<Rightarrow> []
                 | Some e \<Rightarrow> [(aid failing_action, e)]),
              diagnostics := diagnostics one_failing @
                (case handler_error failing_action of None \<Rightarrow> [] | Some e \<Rightarrow> [e])\<rparr>)"
    by blast
  moreover from t2 x have "\<exists>n s'. n \<le> 2 \<and>
      bp_run one_rejected (replicate n (Settle (aid failing_action))) = Some s' \<and>
      aid failing_action \<notin> aid ` set (actionsExecuting s') \<and>
      aid failing_action \<in> set (completed s') \<and>
      actionsToProcess s' = actionsToProcess one_rejected"
    by blast
  moreover from t1 a have "timers one_failing \<noteq> [] \<or>
      (\<exists>r \<in> set (reactions one_failing). fst (snd r) = FromTimer)"
    by blast
  ultimately show ?thesis
    using r r2 r3 a x new_idle
    by (simp add: bp_defs one_failing_def idle_processor_def failing_action_def)
qed

text \<open>
  \<^bold>\<open>C3\<close>. Let \<^verbatim>\<open>dispose\<close> be called on a reachable processor that is not disposed.
  With \<^verbatim>\<open>killQueue\<close> false the call starts every pending action, in order, and in any
  state reached afterwards in which the disposal has resolved, nothing is executing
  and every action that was pending or executing at the call has completed. With
  \<^verbatim>\<open>killQueue\<close> true, no action is started in any state reached afterwards and the
  queue stays as it was. In both cases, once nothing is executing the disposal has
  resolved or resolves at its next poll.
\<close>

theorem dispose_drains_or_abandons:
  assumes "new_processor h ms b = Inr p" and "bp_run p evs = Some s" and "\<not> isDisposed s"
  shows "(\<forall>evs' s'. bp_run s (Dispose False # evs') = Some s' \<and> disposal s' = Done \<longrightarrow>
            actionsExecuting s' = [] \<and>
            (\<forall>a \<in> set (actionsToProcess s) \<union> set (actionsExecuting s). aid a \<in> set (completed s'))) \<and>
         started (dispose False s) = started s @ actionsToProcess s \<and>
         (\<forall>evs' s'. bp_run s (Dispose True # evs') = Some s' \<longrightarrow>
            started s' = started s \<and> actionsToProcess s' = actionsToProcess s) \<and>
         (\<forall>k evs' s'. bp_run s (Dispose k # evs') = Some s' \<and> actionsExecuting s' = [] \<longrightarrow>
            disposal s' = Done \<or> bp_step s' Poll = Some (s'\<lparr>disposal := Done\<rparr>))"
proof -
  have inv: "bp_inv s" using assms(1,2) by (rule reachable_inv)
  have invd: "bp_inv (dispose k s)" for k
    using bp_inv_step[OF inv, of "Dispose k"] by simp
  have A: "actionsExecuting s' = [] \<and>
           (\<forall>a \<in> set (actionsToProcess s) \<union> set (actionsExecuting s). aid a \<in> set (completed s'))"
    if run: "bp_run s (Dispose False # evs') = Some s'" and d: "disposal s' = Done" for evs' s'
  proof -
    from run have r: "bp_run (dispose False s) evs' = Some s'" by simp
    have inv': "bp_inv s'" using bp_inv_run[OF invd r] .
    then have ex: "actionsExecuting s' = []" using d by (simp add: bp_inv_def disposal_ok_def)
    from fifo_run[OF r] obtain new where "started s' = started (dispose False s) @ new" by blast
    then have st: "started s' = started s @ actionsToProcess s @ new"
      using dispose_fields(2)[OF assms(3), of False] by simp
    have sub: "aid ` set (started s') \<subseteq> set (completed s')"
      using inv' ex by (simp add: bp_inv_def started_ok_def)
    have "aid ` set (actionsExecuting s) \<subseteq> aid ` set (started s)"
      using inv by (simp add: bp_inv_def started_ok_def)
    then have "aid ` (set (actionsToProcess s) \<union> set (actionsExecuting s)) \<subseteq> aid ` set (started s')"
      using st by auto
    with sub ex show ?thesis by blast
  qed
  have B: "started s' = started s \<and> actionsToProcess s' = actionsToProcess s"
    if run: "bp_run s (Dispose True # evs') = Some s'" for evs' s'
  proof -
    from run have r: "bp_run (dispose True s) evs' = Some s'" by simp
    from disposed_run[OF invd dispose_fields(1)[OF assms(3)] r]
    show ?thesis using dispose_fields(2,3)[OF assms(3), of True] by simp
  qed
  have C: "disposal s' = Done \<or> bp_step s' Poll = Some (s'\<lparr>disposal := Done\<rparr>)"
    if run: "bp_run s (Dispose k # evs') = Some s'" and ex: "actionsExecuting s' = []" for k evs' s'
  proof -
    from run have r: "bp_run (dispose k s) evs' = Some s'" by simp
    have inv': "bp_inv s'" using bp_inv_run[OF invd r] .
    have "isDisposed s'" using disposed_run[OF invd dispose_fields(1)[OF assms(3)] r] by simp
    then have "disposal s' \<noteq> NotDisposing" using inv' by (simp add: bp_inv_def disposal_ok_def)
    then show ?thesis using ex by (cases "disposal s'") (simp_all add: poll_def)
  qed
  have A': "\<forall>evs' s'. bp_run s (Dispose False # evs') = Some s' \<and> disposal s' = Done \<longrightarrow>
            actionsExecuting s' = [] \<and>
            (\<forall>a \<in> set (actionsToProcess s) \<union> set (actionsExecuting s). aid a \<in> set (completed s'))"
    using A by blast
  have B': "\<forall>evs' s'. bp_run s (Dispose True # evs') = Some s' \<longrightarrow>
            started s' = started s \<and> actionsToProcess s' = actionsToProcess s"
    using B by blast
  have C': "\<forall>k evs' s'. bp_run s (Dispose k # evs') = Some s' \<and> actionsExecuting s' = [] \<longrightarrow>
            disposal s' = Done \<or> bp_step s' Poll = Some (s'\<lparr>disposal := Done\<rparr>)"
    using C by blast
  have D: "started (dispose False s) = started s @ actionsToProcess s"
    using dispose_fields(2)[OF assms(3), of False] by simp
  show ?thesis by (rule conjI[OF A' conjI[OF D conjI[OF B' C']]])
qed

text \<open>
  One action is pending. Without \<^verbatim>\<open>killQueue\<close> it is started, and the disposal
  resolves at the poll after it has settled; with \<^verbatim>\<open>killQueue\<close> it is never started.
\<close>

theorem dispose_drains_or_abandons_witness:
  "new_processor (\<lambda>e. Resolves) 0 True = Inr idle_processor \<and>
   bp_run idle_processor [Enqueue Resolves None] = Some one_queued \<and>
   \<not> isDisposed one_queued \<and>
   bp_run one_queued [Dispose False, Settle 0, Poll] =
     Some (one_queued\<lparr>actionsToProcess := [], isDisposed := True, timers := [],
             disposal := Done, started := [quiet_action], completed := [0]\<rparr>) \<and>
   aid quiet_action \<in> set [0::nat] \<and>
   bp_run one_queued [Dispose True] =
     Some (one_queued\<lparr>isDisposed := True, timers := [], disposal := Done\<rparr>) \<and>
   started (one_queued\<lparr>isDisposed := True, timers := [], disposal := Done\<rparr>) = []"
proof -
  let ?f = "one_queued\<lparr>actionsToProcess := [], isDisposed := True, timers := [],
             disposal := Done, started := [quiet_action], completed := [0]\<rparr>"
  let ?k = "one_queued\<lparr>isDisposed := True, timers := [], disposal := Done\<rparr>"
  have nd: "\<not> isDisposed one_queued" by (simp add: one_queued_def idle_processor_def)
  have rf: "bp_run one_queued [Dispose False, Settle 0, Poll] = Some ?f"
    by (simp add: bp_defs idle_processor_def quiet_action_def one_queued_def)
  have rk: "bp_run one_queued [Dispose True] = Some ?k"
    by (simp add: bp_defs idle_processor_def quiet_action_def one_queued_def)
  have df: "disposal ?f = Done" by simp
  note t = dispose_drains_or_abandons[OF new_idle run_one_queued nd]
  from t rf df have "\<forall>a \<in> set (actionsToProcess one_queued) \<union> set (actionsExecuting one_queued).
      aid a \<in> set (completed ?f)" by blast
  then have "aid quiet_action \<in> set (completed ?f)"
    by (simp add: one_queued_def idle_processor_def)
  moreover from t have "started ?k = started one_queued" using rk by blast
  moreover from t rk have "disposal ?k = Done \<or> bp_step ?k Poll = Some (?k\<lparr>disposal := Done\<rparr>)"
    by (simp add: one_queued_def idle_processor_def)
  ultimately show ?thesis
    using new_idle run_one_queued nd rf rk by (simp add: one_queued_def idle_processor_def)
qed

text \<open>
  \<^bold>\<open>C10\<close>. After \<^verbatim>\<open>dispose(true)\<close> on a reachable processor that is not disposed, in
  every state reached afterwards the queue is the queue at the moment of the call,
  none of its actions has been started, and \<^verbatim>\<open>queueLength\<close> is their number. After
  \<^verbatim>\<open>dispose(false)\<close> the queue is empty.
\<close>

theorem kill_queue_keeps_queue:
  assumes "new_processor h ms b = Inr p" and "bp_run p evs = Some s" and "\<not> isDisposed s"
  shows "(\<forall>evs' s'. bp_run s (Dispose True # evs') = Some s' \<longrightarrow>
            queueLength s' = length (actionsToProcess s) \<and>
            actionsToProcess s' = actionsToProcess s \<and>
            set (actionsToProcess s) \<inter> set (started s') = {}) \<and>
         (\<forall>evs' s'. bp_run s (Dispose False # evs') = Some s' \<longrightarrow> queueLength s' = 0)"
proof -
  have inv: "bp_inv s" using assms(1,2) by (rule reachable_inv)
  have invd: "bp_inv (dispose k s)" for k
    using bp_inv_step[OF inv, of "Dispose k"] by simp
  have fr: "started s' = started (dispose k s) \<and> actionsToProcess s' = actionsToProcess (dispose k s)"
    if "bp_run s (Dispose k # evs') = Some s'" for k evs' s'
    using disposed_run[OF invd dispose_fields(1)[OF assms(3)], of k evs' s'] that by simp
  have dis: "set (actionsToProcess s) \<inter> set (started s) = {}"
    using inv by (auto simp add: bp_inv_def ids_ok_def)
  show ?thesis
    using fr dis dispose_fields(2,3)[OF assms(3)] by (simp add: queueLength_def)
qed

text \<open>
  One action is pending: \<^verbatim>\<open>queueLength\<close> is 1 after \<^verbatim>\<open>dispose(true)\<close> and 0 after
  \<^verbatim>\<open>dispose(false)\<close>.
\<close>

theorem kill_queue_keeps_queue_witness:
  "new_processor (\<lambda>e. Resolves) 0 True = Inr idle_processor \<and>
   bp_run idle_processor [Enqueue Resolves None] = Some one_queued \<and>
   \<not> isDisposed one_queued \<and>
   bp_run one_queued [Dispose True, Poll] = None \<and>
   bp_run one_queued [Dispose True] =
     Some (one_queued\<lparr>isDisposed := True, timers := [], disposal := Done\<rparr>) \<and>
   queueLength (one_queued\<lparr>isDisposed := True, timers := [], disposal := Done\<rparr>) = 1 \<and>
   bp_run one_queued [Dispose False] =
     Some (one_queued\<lparr>actionsToProcess := [], actionsExecuting := [quiet_action],
             isDisposed := True, timers := [],
             reactions := [(quiet_action, FromDispose, ActionPromise None)],
             disposal := Polling, started := [quiet_action]\<rparr>) \<and>
   queueLength (one_queued\<lparr>actionsToProcess := [], actionsExecuting := [quiet_action],
             isDisposed := True, timers := [],
             reactions := [(quiet_action, FromDispose, ActionPromise None)],
             disposal := Polling, started := [quiet_action]\<rparr>) = 0"
proof -
  let ?k = "one_queued\<lparr>isDisposed := True, timers := [], disposal := Done\<rparr>"
  let ?f = "one_queued\<lparr>actionsToProcess := [], actionsExecuting := [quiet_action],
             isDisposed := True, timers := [],
             reactions := [(quiet_action, FromDispose, ActionPromise None)],
             disposal := Polling, started := [quiet_action]\<rparr>"
  have nd: "\<not> isDisposed one_queued" by (simp add: one_queued_def idle_processor_def)
  have rk: "bp_run one_queued [Dispose True] = Some ?k"
    by (simp add: bp_defs idle_processor_def quiet_action_def one_queued_def)
  have rf: "bp_run one_queued [Dispose False] = Some ?f"
    by (simp add: bp_defs idle_processor_def quiet_action_def one_queued_def)
  have rn: "bp_run one_queued [Dispose True, Poll] = None"
    by (simp add: bp_defs idle_processor_def quiet_action_def one_queued_def)
  note t = kill_queue_keeps_queue[OF new_idle run_one_queued nd]
  from t rk have "queueLength ?k = length (actionsToProcess one_queued)" by blast
  moreover from t rf have "queueLength ?f = 0" by blast
  ultimately show ?thesis
    using new_idle run_one_queued nd rk rf rn by (simp add: one_queued_def idle_processor_def)
qed

text \<open>
  \<^bold>\<open>C7\<close>. Once the disposal has resolved, with either value of \<^verbatim>\<open>killQueue\<close>, and
  after any further events, \<^verbatim>\<open>processAction\<close> throws the disposed-object exception
  and the processor is as before: the queue has received no record.
\<close>

theorem enqueue_after_dispose:
  assumes "new_processor h ms b = Inr p" and "bp_run p evs = Some s" and "disposal s = Done"
    and "bp_run s evs' = Some s'"
  shows "processAction s' act eh = Inl ObjectDisposedException \<and>
         bp_step s' (Enqueue act eh) = Some s' \<and>
         actionsToProcess s' = actionsToProcess s"
proof -
  have inv: "bp_inv s" using assms(1,2) by (rule reachable_inv)
  then have "isDisposed s" using assms(3) by (auto simp add: bp_inv_def disposal_ok_def)
  from disposed_run[OF inv this assms(4)] show ?thesis
    by (simp add: processAction_def)
qed

text \<open>
  A new processor is disposed with \<^verbatim>\<open>killQueue\<close> and an action is then enqueued.
\<close>

theorem enqueue_after_dispose_witness:
  "new_processor (\<lambda>e. Resolves) 0 True = Inr idle_processor \<and>
   bp_run idle_processor [Dispose True] =
     Some (idle_processor\<lparr>isDisposed := True, timers := [], disposal := Done\<rparr>) \<and>
   bp_run (idle_processor\<lparr>isDisposed := True, timers := [], disposal := Done\<rparr>)
       [Enqueue Resolves None] =
     Some (idle_processor\<lparr>isDisposed := True, timers := [], disposal := Done\<rparr>) \<and>
   processAction (idle_processor\<lparr>isDisposed := True, timers := [], disposal := Done\<rparr>)
       Resolves None = Inl ObjectDisposedException"
proof -
  let ?d = "idle_processor\<lparr>isDisposed := True, timers := [], disposal := Done\<rparr>"
  have r: "bp_run idle_processor [Dispose True] = Some ?d"
    by (simp add: bp_defs idle_processor_def)
  have d: "disposal ?d = Done" by simp
  have r': "bp_run ?d [Enqueue Resolves None] = Some ?d"
    by (simp add: bp_defs idle_processor_def)
  show ?thesis
    using enqueue_after_dispose[OF new_idle r d r', of Resolves None] r r' new_idle by simp
qed

end
